theory Spec2Isabelle
  imports Main "HOL-Library.Sublist"
begin

section \<open>JavaScript strings\<close>

text \<open>
  Strings are lists of characters, one for each code unit. The operations below are
  the \<open>String.prototype\<close> methods the plugin calls: \<open>startsWith\<close>, \<open>endsWith\<close>,
  \<open>includes\<close>, \<open>slice(0, -n)\<close> and \<open>replace\<close>.
\<close>

definition startsWith :: "string \<Rightarrow> string \<Rightarrow> bool" where
  "startsWith s p = prefix p s"

definition endsWith :: "string \<Rightarrow> string \<Rightarrow> bool" where
  "endsWith s p = prefix (rev p) (rev s)"

fun includesStr :: "string \<Rightarrow> string \<Rightarrow> bool" where
  "includesStr [] p = (p = [])"
| "includesStr (c # cs) p = (prefix p (c # cs) \<or> includesStr cs p)"

text \<open>\<open>indexOf s p\<close> is the position of the leftmost occurrence of \<open>p\<close> in \<open>s\<close>.\<close>

fun indexOf :: "string \<Rightarrow> string \<Rightarrow> nat option" where
  "indexOf [] p = (if p = [] then Some 0 else None)"
| "indexOf (c # cs) p =
     (if prefix p (c # cs) then Some 0 else map_option Suc (indexOf cs p))"

text \<open>\<open>s.slice(0, -n)\<close>: the string without its last \<open>n\<close> characters.\<close>

definition sliceEnd :: "string \<Rightarrow> nat \<Rightarrow> string" where
  "sliceEnd s n = take (length s - n) s"

text \<open>
  The replacement text of \<open>replace\<close> is a template: \<open>$$\<close> stands for a dollar sign,
  \<open>$&\<close> for the matched text, \<open>$`\<close> for the text before the match and \<open>$'\<close> for the
  text after it. Neither the literal search string nor \<open>configDirRegex\<close> has a capture
  group, so a dollar sign followed by anything else stands for itself.
\<close>

fun getSubstitution :: "string \<Rightarrow> string \<Rightarrow> string \<Rightarrow> string \<Rightarrow> string" where
  "getSubstitution matched pre post [] = []"
| "getSubstitution matched pre post [c] = [c]"
| "getSubstitution matched pre post (c # d # t) =
     (if c = CHR ''$'' then
        (if d = CHR ''$'' then CHR ''$'' # getSubstitution matched pre post t
         else if d = CHR ''&'' then matched @ getSubstitution matched pre post t
         else if d = CHR 0x60 then pre @ getSubstitution matched pre post t
         else if d = CHR 0x27 then post @ getSubstitution matched pre post t
         else c # getSubstitution matched pre post (d # t))
      else c # getSubstitution matched pre post (d # t))"

text \<open>
  \<open>s.replace(find, template)\<close> with a string \<open>find\<close>: only the leftmost literal
  occurrence is replaced; without an occurrence the string is returned as it is.
  \<open>pre\<close> is the part of the string already passed.
\<close>

fun replaceFirstFrom :: "string \<Rightarrow> string \<Rightarrow> string \<Rightarrow> string \<Rightarrow> string" where
  "replaceFirstFrom pre fnd template [] =
     (if fnd = [] then getSubstitution [] pre [] template else [])"
| "replaceFirstFrom pre fnd template (c # cs) =
     (if prefix fnd (c # cs)
      then getSubstitution fnd pre (drop (length fnd) (c # cs)) template
             @ drop (length fnd) (c # cs)
      else c # replaceFirstFrom (pre @ [c]) fnd template cs)"

definition replaceString :: "string \<Rightarrow> string \<Rightarrow> string \<Rightarrow> string" where
  "replaceString s fnd template = replaceFirstFrom [] fnd template s"

section \<open>The module-level regular expression\<close>

text \<open>
  \<open>const configDirRegex = /\$\{configDir\}/g\<close> matches the literal text below. It is
  global, so \<open>replace\<close> substitutes every match, found from left to right without
  overlap, and \<open>test\<close> starts at the property \<open>lastIndex\<close> of the one shared object
  and moves it: behind the match when there is one, back to 0 when there is none.
  \<open>replace\<close> starts from 0 and leaves 0 behind.
\<close>

definition configDirToken :: string where
  "configDirToken = ''${configDir}''"

fun replaceAllFrom :: "string \<Rightarrow> string \<Rightarrow> string \<Rightarrow> string" where
  "replaceAllFrom pre template [] = []"
| "replaceAllFrom pre template (c # cs) =
     (if prefix configDirToken (c # cs)
      then getSubstitution configDirToken pre (drop 11 cs) template
             @ replaceAllFrom (pre @ configDirToken) template (drop 11 cs)
      else c # replaceAllFrom (pre @ [c]) template cs)"

definition replaceConfigDir :: "string \<Rightarrow> string \<Rightarrow> string" where
  "replaceConfigDir s template = replaceAllFrom [] template s"

definition configDirRegex_test :: "nat \<Rightarrow> string \<Rightarrow> bool \<times> nat" where
  "configDirRegex_test lastIndex s =
     (if length s < lastIndex then (False, 0)
      else case indexOf (drop lastIndex s) configDirToken of
             None \<Rightarrow> (False, 0)
           | Some k \<Rightarrow> (True, lastIndex + k + length configDirToken))"

section \<open>Paths\<close>

text \<open>
  The functions of \<open>node:path\<close> on a POSIX system. A path is cut at its slashes;
  normalising drops empty and \<open>.\<close> segments and lets \<open>..\<close> cancel the segment before
  it. \<open>resolve\<close> reads its arguments from the right until one is absolute and falls
  back on the working directory \<open>cwd\<close>.
\<close>

fun segments :: "string \<Rightarrow> string list" where
  "segments [] = [[]]"
| "segments (c # cs) =
     (if c = CHR ''/'' then [] # segments cs
      else (case segments cs of [] \<Rightarrow> [[c]] | seg # rest \<Rightarrow> (c # seg) # rest))"

fun joinSlash :: "string list \<Rightarrow> string" where
  "joinSlash [] = []"
| "joinSlash [s] = s"
| "joinSlash (s # t # ts) = s @ CHR ''/'' # joinSlash (t # ts)"

fun normalizeSegments :: "bool \<Rightarrow> string list \<Rightarrow> string list \<Rightarrow> string list" where
  "normalizeSegments allowAboveRoot st [] = rev st"
| "normalizeSegments allowAboveRoot st (seg # segs) =
     (if seg = [] \<or> seg = ''.'' then normalizeSegments allowAboveRoot st segs
      else if seg = ''..'' then
        (case st of
           [] \<Rightarrow> normalizeSegments allowAboveRoot (if allowAboveRoot then [''..''] else []) segs
         | seg0 # st' \<Rightarrow>
             if seg0 \<noteq> ''..'' then normalizeSegments allowAboveRoot st' segs
             else normalizeSegments allowAboveRoot
                    (if allowAboveRoot then ''..'' # st else st) segs)
      else normalizeSegments allowAboveRoot (seg # st) segs)"

definition normalizeString :: "string \<Rightarrow> bool \<Rightarrow> string" where
  "normalizeString path allowAboveRoot =
     joinSlash (normalizeSegments allowAboveRoot [] (segments path))"

definition isAbsolute :: "string \<Rightarrow> bool" where
  "isAbsolute p = (case p of [] \<Rightarrow> False | c # _ \<Rightarrow> c = CHR ''/'')"

fun resolveLoop :: "string list \<Rightarrow> string \<Rightarrow> string \<times> bool" where
  "resolveLoop [] resolvedPath = (resolvedPath, False)"
| "resolveLoop (p # ps) resolvedPath =
     (if p = [] then resolveLoop ps resolvedPath
      else if isAbsolute p then (p @ CHR ''/'' # resolvedPath, True)
      else resolveLoop ps (p @ CHR ''/'' # resolvedPath))"

definition resolve :: "string \<Rightarrow> string list \<Rightarrow> string" where
  "resolve cwd args =
     (case resolveLoop (rev args @ [cwd]) [] of
        (resolvedPath, resolvedAbsolute) \<Rightarrow>
          (let n = normalizeString resolvedPath (\<not> resolvedAbsolute)
           in if resolvedAbsolute then CHR ''/'' # n
              else if n \<noteq> [] then n else ''.''))"

definition normalize :: "string \<Rightarrow> string" where
  "normalize path =
     (if path = [] then ''.''
      else let isAbs = isAbsolute path;
               trailingSeparator = (last path = CHR ''/'');
               p = normalizeString path (\<not> isAbs)
           in if p = [] then (if isAbs then ''/'' else if trailingSeparator then ''./'' else ''.'')
              else let p' = (if trailingSeparator then p @ ''/'' else p)
                   in if isAbs then CHR ''/'' # p' else p')"

definition join :: "string list \<Rightarrow> string" where
  "join args =
     (case filter (\<lambda>a. a \<noteq> []) args of
        [] \<Rightarrow> ''.''
      | joined \<Rightarrow> normalize (joinSlash joined))"

text \<open>
  \<open>dirname\<close> scans from the end: it passes the trailing slashes and the last name and
  cuts at the slash before them; the first character is never looked at.
\<close>

definition dirname :: "string \<Rightarrow> string" where
  "dirname path =
     (if path = [] then ''.''
      else let hasRoot = isAbsolute path;
               left = dropWhile (\<lambda>c. c \<noteq> CHR ''/'')
                        (dropWhile (\<lambda>c. c = CHR ''/'') (rev (tl path)));
               cut = length left
           in if left = [] then (if hasRoot then ''/'' else ''.'')
              else if hasRoot \<and> cut = 1 then ''//''
              else take cut path)"

section \<open>Configuration files\<close>

text \<open>
  \<open>TsConfig\<close> holds what \<open>resolveTsConfigPath\<close> keeps of a parsed file: \<open>extends\<close>,
  \<open>compilerOptions.baseUrl\<close> and \<open>compilerOptions.paths\<close>, each possibly undefined.
  The values have the types the source declares: \<open>extends\<close> is an array of strings
  (anything else fails \<open>Array.isArray\<close> and counts as undefined), and a
  \<open>Record<string, Array<string>>\<close> is the list of its entries in the order of
  \<open>Object.entries\<close>.
\<close>

type_synonym TsConfigPaths = "(string \<times> string list) list"

record TsConfig =
  cfg_extends :: "string list option"
  cfg_baseUrl :: "string option"
  cfg_paths :: "TsConfigPaths option"

record UnresolvedAlias =
  baseUrl :: "string option"
  paths :: TsConfigPaths

record ResolvedAlias =
  findPattern :: string
  replacement :: string

text \<open>
  The file system maps an absolute path to what is there: nothing, a directory, or a
  file, whose text \<open>JSON.parse\<close> either rejects or turns into a configuration.
\<close>

datatype fsnode = Directory | File "TsConfig option"

type_synonym filesystem = "string \<Rightarrow> fsnode option"

datatype error = SyntaxError | EISDIR | ENOENT | TypeError

definition existsSync :: "filesystem \<Rightarrow> string \<Rightarrow> bool" where
  "existsSync fs p = (fs p \<noteq> None)"

definition resolveTsConfigPath :: "string \<Rightarrow> filesystem \<Rightarrow> string \<Rightarrow> error + TsConfig option" where
  "resolveTsConfigPath cwd fs tsConfigPath =
     (let tsconfigPath' = resolve cwd [tsConfigPath]
      in if \<not> existsSync fs (resolve cwd [tsconfigPath']) then Inr None
         else case fs tsconfigPath' of
                None \<Rightarrow> Inl ENOENT
              | Some Directory \<Rightarrow> Inl EISDIR
              | Some (File None) \<Rightarrow> Inl SyntaxError
              | Some (File (Some c)) \<Rightarrow> Inr (Some c))"

section \<open>The inheritance walker\<close>

text \<open>
  \<open>String(v)\<close> of an undefined value is the text \<open>undefined\<close>; an undefined or empty
  string is falsy.
\<close>

definition toString :: "string option \<Rightarrow> string" where
  "toString v = (case v of None \<Rightarrow> ''undefined'' | Some s \<Rightarrow> s)"

definition truthy :: "string option \<Rightarrow> bool" where
  "truthy v = (case v of None \<Rightarrow> False | Some s \<Rightarrow> s \<noteq> [])"

text \<open>
  The inner \<open>values.filter\<close> tests every target of one entry against
  \<open>configDirRegex\<close>, in order, each test starting where the one before left
  \<open>lastIndex\<close>. It yields the number of targets that matched and the new \<open>lastIndex\<close>.
\<close>

fun filterValues :: "nat \<Rightarrow> string list \<Rightarrow> nat \<times> nat" where
  "filterValues lastIndex [] = (0, lastIndex)"
| "filterValues lastIndex (v # vs) =
     (case configDirRegex_test lastIndex v of
        (matched, lastIndex') \<Rightarrow>
          (case filterValues lastIndex' vs of
             (n, lastIndex'') \<Rightarrow> ((if matched then Suc n else n), lastIndex'')))"

text \<open>
  The outer filter keeps the entries with a matching target; \<open>pathsHasConfigDir\<close>
  is set as soon as one target matched.
\<close>

fun filterEntries :: "nat \<Rightarrow> TsConfigPaths \<Rightarrow> TsConfigPaths \<times> bool \<times> nat" where
  "filterEntries lastIndex [] = ([], False, lastIndex)"
| "filterEntries lastIndex ((pattern, values) # es) =
     (case filterValues lastIndex values of
        (n, lastIndex') \<Rightarrow>
          (case filterEntries lastIndex' es of
             (kept, pathsHasConfigDir, lastIndex'') \<Rightarrow>
               ((if n \<noteq> 0 then (pattern, values) # kept else kept),
                (n \<noteq> 0 \<or> pathsHasConfigDir), lastIndex'')))"

text \<open>
  One round of the loop over \<open>extends\<close>. An entry that is neither absolute nor
  starts with \<open>./\<close> is looked up under \<open>node_modules\<close> of the root. The round yields
  the aliases it pushes (none or one) and the \<open>lastIndex\<close> it leaves, or the error
  thrown by the reader.
\<close>

definition extendsTarget :: "string \<Rightarrow> string \<Rightarrow> string \<Rightarrow> string" where
  "extendsTarget cwd root extendsPath =
     (if \<not> isAbsolute extendsPath \<and> \<not> startsWith extendsPath ''./''
      then resolve cwd [join [root, ''node_modules''],
             if endsWith extendsPath ''.json'' then extendsPath
             else extendsPath @ ''.json'']
      else extendsPath)"

definition extendsStep ::
  "string \<Rightarrow> filesystem \<Rightarrow> string \<Rightarrow> nat \<Rightarrow> string \<Rightarrow> (error + UnresolvedAlias list) \<times> nat" where
  "extendsStep cwd fs root lastIndex extendsPath =
     (let extendsPath' = extendsTarget cwd root extendsPath
      in case resolveTsConfigPath cwd fs extendsPath' of
           Inl e \<Rightarrow> (Inl e, lastIndex)
         | Inr extendsTsConfigContent \<Rightarrow>
            (let extBaseUrl = (case extendsTsConfigContent of None \<Rightarrow> None | Some c \<Rightarrow> cfg_baseUrl c);
                 extPaths = (case extendsTsConfigContent of None \<Rightarrow> None | Some c \<Rightarrow> cfg_paths c)
             in (case configDirRegex_test lastIndex (toString extBaseUrl) of
                  (baseUrlHasConfigDir, lastIndex1) \<Rightarrow>
                    (case extPaths of
                       None \<Rightarrow> (Inr [], lastIndex1)
                     | Some ps \<Rightarrow>
                         (case (if baseUrlHasConfigDir then (ps, False, lastIndex1)
                                else filterEntries lastIndex1 ps) of
                            (paths', pathsHasConfigDir, lastIndex2) \<Rightarrow>
                              if \<not> truthy extBaseUrl \<and> \<not> pathsHasConfigDir then (Inr [], lastIndex2)
                              else (Inr [\<lparr>baseUrl = extBaseUrl, paths = paths'\<rparr>], lastIndex2))))))"

fun extendsLoop ::
  "string \<Rightarrow> filesystem \<Rightarrow> string \<Rightarrow> nat \<Rightarrow> string list \<Rightarrow> (error + UnresolvedAlias list) \<times> nat" where
  "extendsLoop cwd fs root lastIndex [] = (Inr [], lastIndex)"
| "extendsLoop cwd fs root lastIndex (extendsPath # rest) =
     (case extendsStep cwd fs root lastIndex extendsPath of
        (Inl e, lastIndex') \<Rightarrow> (Inl e, lastIndex')
      | (Inr pushed, lastIndex') \<Rightarrow>
          (case extendsLoop cwd fs root lastIndex' rest of
             (Inl e, lastIndex'') \<Rightarrow> (Inl e, lastIndex'')
           | (Inr later, lastIndex'') \<Rightarrow> (Inr (pushed @ later), lastIndex'')))"

definition getRecursivePathsFromTsConfig ::
  "string \<Rightarrow> filesystem \<Rightarrow> string \<Rightarrow> nat \<Rightarrow> string \<Rightarrow> (error + UnresolvedAlias list) \<times> nat" where
  "getRecursivePathsFromTsConfig cwd fs root lastIndex tsConfigPath =
     (case resolveTsConfigPath cwd fs tsConfigPath of
        Inl e \<Rightarrow> (Inl e, lastIndex)
      | Inr tsConfigContent \<Rightarrow>
         (let aliases =
                (case tsConfigContent of
                   None \<Rightarrow> []
                 | Some c \<Rightarrow>
                     (case cfg_paths c of
                        None \<Rightarrow> []
                      | Some ps \<Rightarrow>
                          if truthy (cfg_baseUrl c) then [\<lparr>baseUrl = cfg_baseUrl c, paths = ps\<rparr>]
                          else []));
              extends = (case tsConfigContent of None \<Rightarrow> None | Some c \<Rightarrow> cfg_extends c)
          in (case extends of
                None \<Rightarrow> (Inr aliases, lastIndex)
              | Some es \<Rightarrow>
                  (case extendsLoop cwd fs root lastIndex es of
                     (Inl e, lastIndex') \<Rightarrow> (Inl e, lastIndex')
                   | (Inr pushed, lastIndex') \<Rightarrow> (Inr (aliases @ pushed), lastIndex')))))"

section \<open>The alias compiler\<close>

definition tsAliasSuffix :: string where
  "tsAliasSuffix = ''/*''"

subsection \<open>The existence-checking variant\<close>

definition removeSuffixPatternFromTsAlias :: "string \<Rightarrow> string" where
  "removeSuffixPatternFromTsAlias tsAlias =
     (if endsWith tsAlias tsAliasSuffix then sliceEnd tsAlias (length tsAliasSuffix)
      else tsAlias)"

text \<open>
  The body of the loop of \<open>resolveMaps\<close>, for one target. \<open>String()\<close> is the empty
  string. The source writes the resolved paths back into the array it was given; the
  arrays come fresh from \<open>JSON.parse\<close> and each is read once, so the model returns
  the new list.
\<close>

definition resolveMap :: "string \<Rightarrow> string \<Rightarrow> string \<Rightarrow> string" where
  "resolveMap cwd baseUrl' m =
     (let mapWithoutSuffixPattern = removeSuffixPatternFromTsAlias m
      in if mapWithoutSuffixPattern = ''*'' then resolve cwd [baseUrl']
         else resolve cwd [baseUrl', replaceConfigDir mapWithoutSuffixPattern []])"

definition resolveMaps :: "string \<Rightarrow> string \<Rightarrow> string list \<Rightarrow> string list" where
  "resolveMaps cwd baseUrl' maps = map (resolveMap cwd baseUrl') maps"

text \<open>
  \<open>(baseUrl === '.' ? root : baseUrl?.startsWith('${configDir}')
       ? baseUrl.replace(configDirRegex, root) : baseUrl) ?? root\<close>
\<close>

definition baseUrl_probe :: "string \<Rightarrow> string option \<Rightarrow> string" where
  "baseUrl_probe root baseUrl' =
     (case baseUrl' of
        None \<Rightarrow> root
      | Some b \<Rightarrow>
          if b = ''.'' then root
          else if startsWith b configDirToken then replaceConfigDir b root
          else b)"

text \<open>The rules one entry of \<open>paths\<close> adds to \<open>resolvedAliases\<close>.\<close>

definition aliasEntry_probe ::
  "string \<Rightarrow> filesystem \<Rightarrow> string \<Rightarrow> string option \<Rightarrow> string \<times> string list \<Rightarrow> ResolvedAlias list" where
  "aliasEntry_probe cwd fs root baseUrl' entry =
     (case entry of
        (pattern, remaps) \<Rightarrow>
          (let patternWithoutSuffix = removeSuffixPatternFromTsAlias pattern
           in if patternWithoutSuffix = [] then []
              else case filter (existsSync fs) (resolveMaps cwd (baseUrl_probe root baseUrl') remaps) of
                     [] \<Rightarrow> []
                   | m # _ \<Rightarrow>
                       if m = [] then []
                       else [\<lparr>findPattern = patternWithoutSuffix, replacement = m\<rparr>]))"

definition resolveAliases_probe ::
  "string \<Rightarrow> filesystem \<Rightarrow> string \<Rightarrow> UnresolvedAlias list \<Rightarrow> ResolvedAlias list" where
  "resolveAliases_probe cwd fs root aliases =
     concat (map (\<lambda>a. concat (map (aliasEntry_probe cwd fs root (baseUrl a)) (paths a))) aliases)"

subsection \<open>The always-first-priority variant\<close>

definition tryExtractFindPatternFromTsAlias :: "string \<Rightarrow> string option" where
  "tryExtractFindPatternFromTsAlias tsAlias =
     (if endsWith tsAlias tsAliasSuffix then Some (sliceEnd tsAlias (length tsAliasSuffix))
      else None)"

text \<open>
  The replacement compiled from the first target, once its suffix is gone:
  \<open>_baseUrl\<close> is the root when \<open>baseUrl\<close> is \<open>.\<close>; an undefined or empty
  \<open>_baseUrl\<close> is false and leads to the last \<open>push\<close>.
\<close>

definition replacement_first :: "string \<Rightarrow> string \<Rightarrow> string option \<Rightarrow> string \<Rightarrow> string" where
  "replacement_first cwd root baseUrl' target =
     (let baseUrl'' = (if baseUrl' = Some ''.'' then Some root else baseUrl')
      in if truthy baseUrl'' then
           (case baseUrl'' of
              None \<Rightarrow> resolve cwd [join [root, replaceConfigDir target []]]
            | Some b \<Rightarrow>
                if includesStr b configDirToken
                then resolve cwd [join [replaceConfigDir b root, replaceConfigDir target []]]
                else resolve cwd [join [replaceConfigDir b root, replaceConfigDir target root]])
         else resolve cwd [join [root, replaceConfigDir target []]])"

text \<open>
  The rules one entry adds. Destructuring an empty array leaves
  \<open>remapWithGreaterPriority\<close> undefined, and \<open>endsWith\<close> of undefined throws a
  \<open>TypeError\<close>. An undefined or empty result of
  \<open>tryExtractFindPatternFromTsAlias\<close> is false and skips the entry.
\<close>

definition aliasEntry_first ::
  "string \<Rightarrow> string \<Rightarrow> string option \<Rightarrow> string \<times> string list \<Rightarrow> error + ResolvedAlias list" where
  "aliasEntry_first cwd root baseUrl' entry =
     (case entry of
        (pattern, remaps) \<Rightarrow>
          (case remaps of
             [] \<Rightarrow> Inl TypeError
           | remapWithGreaterPriority # _ \<Rightarrow>
               (case tryExtractFindPatternFromTsAlias remapWithGreaterPriority of
                  None \<Rightarrow> Inr []
                | Some target \<Rightarrow>
                    if target = [] then Inr []
                    else (case tryExtractFindPatternFromTsAlias pattern of
                            None \<Rightarrow> Inr []
                          | Some fp \<Rightarrow>
                              if fp = [] then Inr []
                              else Inr [\<lparr>findPattern = fp,
                                         replacement = replacement_first cwd root baseUrl' target\<rparr>]))))"

fun entriesLoop_first ::
  "string \<Rightarrow> string \<Rightarrow> string option \<Rightarrow> TsConfigPaths \<Rightarrow> error + ResolvedAlias list" where
  "entriesLoop_first cwd root baseUrl' [] = Inr []"
| "entriesLoop_first cwd root baseUrl' (entry # entries) =
     (case aliasEntry_first cwd root baseUrl' entry of
        Inl e \<Rightarrow> Inl e
      | Inr rs \<Rightarrow>
          (case entriesLoop_first cwd root baseUrl' entries of
             Inl e \<Rightarrow> Inl e
           | Inr rs' \<Rightarrow> Inr (rs @ rs')))"

fun resolveAliases_first :: "string \<Rightarrow> string \<Rightarrow> UnresolvedAlias list \<Rightarrow> error + ResolvedAlias list" where
  "resolveAliases_first cwd root [] = Inr []"
| "resolveAliases_first cwd root (a # aliases) =
     (case entriesLoop_first cwd root (baseUrl a) (paths a) of
        Inl e \<Rightarrow> Inl e
      | Inr rs \<Rightarrow>
          (case resolveAliases_first cwd root aliases of
             Inl e \<Rightarrow> Inl e
           | Inr rs' \<Rightarrow> Inr (rs @ rs')))"

section \<open>The resolution hook\<close>

text \<open>
  \<open>new RegExp(find).test(source)\<close>. A pattern without syntax characters matches
  wherever it occurs in the source. For any other pattern the regular-expression
  engine of the runtime decides; it is the parameter \<open>engine\<close>, with \<open>None\<close> for a
  pattern the constructor rejects with a \<open>SyntaxError\<close>.
\<close>

definition syntaxCharacters :: "char list" where
  "syntaxCharacters = ''^$.*+?()[]{}|'' @ [CHR 0x5C]"

definition regExpTest :: "(string \<Rightarrow> string \<Rightarrow> bool option) \<Rightarrow> string \<Rightarrow> string \<Rightarrow> bool option" where
  "regExpTest engine fnd source =
     (if list_all (\<lambda>c. c \<notin> set syntaxCharacters) fnd then Some (includesStr source fnd)
      else engine fnd source)"

text \<open>
  \<open>resolveId\<close>, the same text in both modules. \<open>host\<close> is \<open>this.resolve\<close>: the id of
  the module it finds, or nothing. \<open>Inr None\<close> is the hook returning undefined.
\<close>

fun resolveIdLoop ::
  "(string \<Rightarrow> string \<Rightarrow> bool option) \<Rightarrow> (string \<Rightarrow> string option) \<Rightarrow> ResolvedAlias list \<Rightarrow> string
     \<Rightarrow> error + string option" where
  "resolveIdLoop engine host [] source = Inr None"
| "resolveIdLoop engine host (r # rs) source =
     (case regExpTest engine (findPattern r) source of
        None \<Rightarrow> Inl SyntaxError
      | Some False \<Rightarrow> resolveIdLoop engine host rs source
      | Some True \<Rightarrow>
          (case host (replaceString source (findPattern r) (replacement r)) of
             Some resolved \<Rightarrow> Inr (Some resolved)
           | None \<Rightarrow> resolveIdLoop engine host rs source))"

section \<open>Discovery and the plugin state\<close>

text \<open>
  The closure variable \<open>resolvedAliases\<close>, undefined until the first
  \<open>configResolved\<close> that returns.
\<close>

record plugin_state =
  resolvedAliases :: "ResolvedAlias list option"

definition resolveId ::
  "(string \<Rightarrow> string \<Rightarrow> bool option) \<Rightarrow> (string \<Rightarrow> string option) \<Rightarrow> plugin_state \<Rightarrow> string
     \<Rightarrow> error + string option" where
  "resolveId engine host st source =
     (case resolvedAliases st of
        None \<Rightarrow> Inl TypeError
      | Some rules \<Rightarrow> resolveIdLoop engine host rules source)"

text \<open>
  \<open>fg pattern ignore\<close> is \<open>fg.sync\<close> with \<open>onlyFiles\<close>: the files matching a glob
  pattern, except those under an ignored pattern. The callback of \<open>filter\<close> is the
  same in both modules.
\<close>

definition tsConfigFilter :: "(string \<Rightarrow> string list \<Rightarrow> string list) \<Rightarrow> string \<Rightarrow> string \<Rightarrow> string \<Rightarrow> bool" where
  "tsConfigFilter fg cwd root tsConfigPath =
     (let tsConfigDir = dirname tsConfigPath;
          viteConfigFile = fg (resolve cwd [dirname tsConfigDir, ''vite.config.{js,ts}'']) []
      in if viteConfigFile \<noteq> [] \<and> tsConfigDir \<noteq> root then False else True)"

fun collectAliases ::
  "string \<Rightarrow> filesystem \<Rightarrow> string \<Rightarrow> nat \<Rightarrow> string list \<Rightarrow> (error + UnresolvedAlias list) \<times> nat" where
  "collectAliases cwd fs root li [] = (Inr [], li)"
| "collectAliases cwd fs root li (tsConfig # rest) =
     (case getRecursivePathsFromTsConfig cwd fs root li tsConfig of
        (Inl e, li') \<Rightarrow> (Inl e, li')
      | (Inr tsConfigPaths, li') \<Rightarrow>
          (case collectAliases cwd fs root li' rest of
             (Inl e, li'') \<Rightarrow> (Inl e, li'')
           | (Inr later, li'') \<Rightarrow> (Inr (tsConfigPaths @ later), li'')))"

text \<open>
  \<open>configResolved\<close> of the existence-checking module, with the option
  \<open>generatePathsFromViteConfig\<close> at its default \<open>false\<close>. \<open>li\<close> is
  \<open>configDirRegex.lastIndex\<close> on entry, whatever earlier tests and replacements left
  there. The result is the error thrown, if any, and the state left behind.
\<close>

definition configResolved_probe ::
  "(string \<Rightarrow> string list \<Rightarrow> string list) \<Rightarrow> string \<Rightarrow> filesystem \<Rightarrow> string option \<Rightarrow> nat
     \<Rightarrow> plugin_state \<Rightarrow> error option \<times> plugin_state" where
  "configResolved_probe fg cwd fs rootOpt li st =
     (let root = (case rootOpt of None \<Rightarrow> cwd | Some r \<Rightarrow> r);
          tsConfigFiles = filter (tsConfigFilter fg cwd root)
                            (fg (resolve cwd [root, ''/tsconfig(.*)?.json'']) [])
      in case fst (collectAliases cwd fs root li tsConfigFiles) of
           Inl e \<Rightarrow> (Some e, st)
         | Inr unresolvedAlias \<Rightarrow>
             (None, st\<lparr>resolvedAliases := Some (resolveAliases_probe cwd fs root unresolvedAlias)\<rparr>))"

text \<open>\<open>configResolved\<close> of the always-first-priority module.\<close>

definition configResolved_first ::
  "(string \<Rightarrow> string list \<Rightarrow> string list) \<Rightarrow> string \<Rightarrow> filesystem \<Rightarrow> string option \<Rightarrow> nat
     \<Rightarrow> plugin_state \<Rightarrow> error option \<times> plugin_state" where
  "configResolved_first fg cwd fs rootOpt li st =
     (let root = (case rootOpt of None \<Rightarrow> cwd | Some r \<Rightarrow> r);
          tsConfigFiles = filter (tsConfigFilter fg cwd root)
                            (fg (resolve cwd [root, ''**/tsconfig(.*)?.json''])
                               [''**/node_modules/**''])
      in case fst (collectAliases cwd fs root li tsConfigFiles) of
           Inl e \<Rightarrow> (Some e, st)
         | Inr unresolvedAlias \<Rightarrow>
             (case resolveAliases_first cwd root unresolvedAlias of
                Inl e \<Rightarrow> (Some e, st)
              | Inr rs \<Rightarrow> (None, st\<lparr>resolvedAliases := Some rs\<rparr>)))"

text \<open>
  A rule lets a specifier pass when its pattern does not match, or when it matches and
  the host finds nothing for the rewritten specifier.
\<close>

definition declines ::
  "(string \<Rightarrow> string \<Rightarrow> bool option) \<Rightarrow> (string \<Rightarrow> string option) \<Rightarrow> string \<Rightarrow> ResolvedAlias \<Rightarrow> bool" where
  "declines engine host source r =
     (regExpTest engine (findPattern r) source = Some False
      \<or> (regExpTest engine (findPattern r) source = Some True
          \<and> host (replaceString source (findPattern r) (replacement r)) = None))"

text \<open>A segment of a normalised absolute path: a name, neither empty nor made of dots.\<close>

definition plainSegment :: "string \<Rightarrow> bool" where
  "plainSegment seg = (seg \<noteq> [] \<and> seg \<noteq> ''.'' \<and> seg \<noteq> ''..'' \<and> CHR ''/'' \<notin> set seg)"

text \<open>
  Removing the placeholders of a target in one pass can leave a placeholder behind, put
  together from the text around a removed one.
\<close>

definition reformsPlaceholder :: "string \<Rightarrow> bool" where
  "reformsPlaceholder target = includesStr (replaceConfigDir target []) configDirToken"

text \<open>
  The constructor \<open>RegExp\<close> rejects a pattern in which a group is opened and never
  closed: \<open>new RegExp('@(app')\<close> throws a \<open>SyntaxError\<close>. \<open>unterminatedGroup\<close>
  recognises the plainest such patterns, those with an opening parenthesis and without
  a closing parenthesis, a bracket or a backslash. \<open>groupEngine\<close> is the engine as far
  as these patterns go: it rejects them, whatever the source. It serves the examples
  only and lets no other pattern match.
\<close>

definition unterminatedGroup :: "string \<Rightarrow> bool" where
  "unterminatedGroup fnd =
     (CHR ''('' \<in> set fnd \<and> CHR '')'' \<notin> set fnd \<and> CHR ''['' \<notin> set fnd \<and> CHR 0x5C \<notin> set fnd)"

definition groupEngine :: "string \<Rightarrow> string \<Rightarrow> bool option" where
  "groupEngine fnd source = (if unterminatedGroup fnd then None else Some False)"

section \<open>Totality of the always-first-priority compiler\<close>

lemma aliasEntry_first_no_targets: "aliasEntry_first cwd root b (pattern, []) = Inl TypeError"
  by (simp add: aliasEntry_first_def)

lemma aliasEntry_first_returns:
  "remaps \<noteq> [] \<Longrightarrow> \<exists>rs. aliasEntry_first cwd root b (pattern, remaps) = Inr rs"
  by (cases remaps) (auto simp: aliasEntry_first_def split: option.splits)

lemma entriesLoop_first_total:
  "(if \<forall>entry\<in>set entries. snd entry \<noteq> []
    then \<exists>rs. entriesLoop_first cwd root b entries = Inr rs
    else entriesLoop_first cwd root b entries = Inl TypeError)"
proof (induction entries)
  case Nil
  show ?case by simp
next
  case (Cons entry entries)
  show ?case
  proof (cases "snd entry = []")
    case True
    then have "aliasEntry_first cwd root b entry = Inl TypeError"
      by (cases entry) (simp add: aliasEntry_first_no_targets)
    with True show ?thesis by simp
  next
    case False
    then obtain rs where "aliasEntry_first cwd root b entry = Inr rs"
      using aliasEntry_first_returns [of "snd entry" cwd root b "fst entry"] by auto
    with False Cons show ?thesis
      by (cases "\<forall>entry\<in>set entries. snd entry \<noteq> []") (auto split: sum.splits)
  qed
qed

text \<open>
  Claim C9. \<open>resolveAliases\<close> of the always-first-priority variant returns a rule
  list whenever every pattern of every alias set has at least one target; as soon as
  one pattern is mapped to an empty array, the call throws a \<open>TypeError\<close> instead
  of skipping that entry.
\<close>

theorem resolveAliases_first_total:
  "(if \<forall>a\<in>set aliases. \<forall>entry\<in>set (paths a). snd entry \<noteq> []
    then \<exists>rs. resolveAliases_first cwd root aliases = Inr rs
    else resolveAliases_first cwd root aliases = Inl TypeError)"
proof (induction aliases)
  case Nil
  show ?case by simp
next
  case (Cons a aliases)
  show ?case
    using Cons entriesLoop_first_total [of "paths a" cwd root "baseUrl a"]
    by (cases "\<forall>entry\<in>set (paths a). snd entry \<noteq> []";
        cases "\<forall>a\<in>set aliases. \<forall>entry\<in>set (paths a). snd entry \<noteq> []")
       (auto split: sum.splits)
qed

theorem resolveAliases_first_total_witness:
  "(\<exists>rs. resolveAliases_first ''/cwd'' ''/proj''
           [\<lparr>baseUrl = Some ''.'', paths = [(''@app/*'', [''src/*''])]\<rparr>] = Inr rs)
   \<and> resolveAliases_first ''/cwd'' ''/proj''
           [\<lparr>baseUrl = Some ''.'', paths = [(''@app/*'', [''src/*'']), (''@lib/*'', [])]\<rparr>]
       = Inl TypeError"
  using resolveAliases_first_total
          [of "[\<lparr>baseUrl = Some ''.'', paths = [(''@app/*'', [''src/*''])]\<rparr>]" "''/cwd''" "''/proj''"]
        resolveAliases_first_total
          [of "[\<lparr>baseUrl = Some ''.'', paths = [(''@app/*'', [''src/*'']), (''@lib/*'', [])]\<rparr>]"
              "''/cwd''" "''/proj''"]
  by simp

section \<open>Patterns without the wildcard suffix\<close>

lemma resolve_nonempty: "resolve cwd args \<noteq> []"
  by (simp add: resolve_def Let_def split: prod.splits)

lemma resolveMap_nonempty: "resolveMap cwd b m \<noteq> []"
  by (simp add: resolveMap_def Let_def resolve_nonempty)

lemma aliasEntry_probe_findPattern:
  "r \<in> set (aliasEntry_probe cwd fs root b (pattern, remaps))
   \<Longrightarrow> findPattern r = removeSuffixPatternFromTsAlias pattern"
  by (auto simp: aliasEntry_probe_def Let_def split: list.splits if_splits)

lemma aliasEntry_probe_empty_iff:
  "aliasEntry_probe cwd fs root b (pattern, remaps) = [] \<longleftrightarrow>
     removeSuffixPatternFromTsAlias pattern = []
     \<or> (\<forall>m\<in>set remaps. \<not> existsSync fs (resolveMap cwd (baseUrl_probe root b) m))"
proof -
  have ne: "\<And>m ms. filter (existsSync fs) (resolveMaps cwd (baseUrl_probe root b) remaps) = m # ms
              \<Longrightarrow> m \<noteq> []"
  proof -
    fix m ms
    assume "filter (existsSync fs) (resolveMaps cwd (baseUrl_probe root b) remaps) = m # ms"
    then have "m \<in> set (resolveMaps cwd (baseUrl_probe root b) remaps)"
      by (metis filter_is_subset list.set_intros(1) subsetD)
    then obtain x where "m = resolveMap cwd (baseUrl_probe root b) x"
      by (auto simp: resolveMaps_def)
    then show "m \<noteq> []"
      by (simp add: resolveMap_nonempty)
  qed
  have "filter (existsSync fs) (resolveMaps cwd (baseUrl_probe root b) remaps) = [] \<longleftrightarrow>
          (\<forall>m\<in>set remaps. \<not> existsSync fs (resolveMap cwd (baseUrl_probe root b) m))"
    by (simp add: filter_empty_conv resolveMaps_def)
  then show ?thesis
    using ne by (auto simp: aliasEntry_probe_def Let_def split: list.splits)
qed

text \<open>
  Claim C1, as amended. A pattern that does not end with \<open>/*\<close> yields no rule in
  the always-first-priority variant (the call throws when the pattern has no target at
  all). The existence-checking variant keeps such a pattern whole as the \<open>find\<close> of
  its rule, and the entry yields no rule only when the pattern is empty or none of its
  targets resolves to a path that exists.
\<close>

theorem pattern_without_suffix:
  "\<not> endsWith pattern tsAliasSuffix \<Longrightarrow>
     aliasEntry_first cwd root b (pattern, remaps) = (if remaps = [] then Inl TypeError else Inr [])
     \<and> (\<forall>r\<in>set (aliasEntry_probe cwd fs root b' (pattern, remaps)). findPattern r = pattern)
     \<and> (aliasEntry_probe cwd fs root b' (pattern, remaps) = [] \<longleftrightarrow>
          pattern = []
          \<or> (\<forall>m\<in>set remaps. \<not> existsSync fs (resolveMap cwd (baseUrl_probe root b') m)))"
proof -
  assume ns: "\<not> endsWith pattern tsAliasSuffix"
  then have rm: "removeSuffixPatternFromTsAlias pattern = pattern"
    by (simp add: removeSuffixPatternFromTsAlias_def)
  from ns have "aliasEntry_first cwd root b (pattern, remaps)
                  = (if remaps = [] then Inl TypeError else Inr [])"
    by (cases remaps)
       (auto simp: aliasEntry_first_def tryExtractFindPatternFromTsAlias_def split: option.splits)
  moreover have "\<forall>r\<in>set (aliasEntry_probe cwd fs root b' (pattern, remaps)). findPattern r = pattern"
    using aliasEntry_probe_findPattern rm by fastforce
  moreover have "aliasEntry_probe cwd fs root b' (pattern, remaps) = [] \<longleftrightarrow>
          pattern = []
          \<or> (\<forall>m\<in>set remaps. \<not> existsSync fs (resolveMap cwd (baseUrl_probe root b') m))"
    using aliasEntry_probe_empty_iff [of cwd fs root b' pattern remaps] rm by simp
  ultimately show ?thesis by blast
qed

theorem pattern_without_suffix_witness:
  "\<not> endsWith ''@app'' tsAliasSuffix
   \<and> aliasEntry_first ''/cwd'' ''/proj'' (Some ''.'') (''@app'', [''src/*'']) = Inr []
   \<and> aliasEntry_probe ''/cwd'' (map_of [(''/proj/lib'', Directory)]) ''/proj'' (Some ''.'')
        (''@app'', [''src'']) = []"
proof -
  have h: "\<not> endsWith ''@app'' tsAliasSuffix"
    by (simp add: endsWith_def tsAliasSuffix_def)
  have e: "\<forall>m\<in>set [''src'']. \<not> existsSync (map_of [(''/proj/lib'', Directory)])
             (resolveMap ''/cwd'' (baseUrl_probe ''/proj'' (Some ''.'')) m)"
    by code_simp
  show ?thesis
    using h e
      pattern_without_suffix [OF h, of "''/cwd''" "''/proj''" "Some ''.''" "[''src/*'']"]
      pattern_without_suffix [OF h, of "''/cwd''" "''/proj''" "Some ''.''" "[''src'']"
        "map_of [(''/proj/lib'', Directory)]" "Some ''.''"]
    by simp
qed

text \<open>
  The claim as first stated fails in the existence-checking variant: the pattern
  \<open>@app\<close> with the target \<open>src\<close>, where \<open>/proj/src\<close> exists, compiles to a rule.
\<close>

theorem pattern_without_suffix_counterexample:
  "\<not> endsWith ''@app'' tsAliasSuffix
   \<and> resolveAliases_probe ''/cwd'' (map_of [(''/proj/src'', Directory)]) ''/proj''
        [\<lparr>baseUrl = Some ''.'', paths = [(''@app'', [''src''])]\<rparr>]
      = [\<lparr>findPattern = ''@app'', replacement = ''/proj/src''\<rparr>]"
  by code_simp

section \<open>The order of the rules in the hook\<close>

lemma resolveIdLoop_skip:
  "\<forall>r\<in>set pre. declines engine host source r \<Longrightarrow>
     resolveIdLoop engine host (pre @ rs) source = resolveIdLoop engine host rs source"
  by (induction pre) (auto simp: declines_def)

lemma resolveIdLoop_cut:
  "regExpTest engine (findPattern A) source = Some True \<Longrightarrow>
   host (replaceString source (findPattern A) (replacement A)) = Some i \<Longrightarrow>
   resolveIdLoop engine host (pre @ A # rest) source = resolveIdLoop engine host (pre @ [A]) source"
  by (induction pre) (auto split: option.splits bool.splits)

text \<open>
  Claim C5. Let the rule list hold \<open>A\<close> and, somewhere behind it, \<open>B\<close> with the same
  \<open>find\<close>; let the specifier match that \<open>find\<close> and the host resolve the specifier
  rewritten with \<open>A\<close>. Then the hook answers as if the list ended with \<open>A\<close>: \<open>B\<close>
  is never reached. When the rules in front of \<open>A\<close> let the specifier pass, the answer
  is the module found through \<open>A\<close>'s replacement.
\<close>

theorem first_match_wins:
  assumes "findPattern A = findPattern B"
    and "regExpTest engine (findPattern A) source = Some True"
    and "host (replaceString source (findPattern A) (replacement A)) = Some i"
  shows "resolveId engine host \<lparr>resolvedAliases = Some (pre @ A # mid @ B # post)\<rparr> source
           = resolveId engine host \<lparr>resolvedAliases = Some (pre @ [A])\<rparr> source
         \<and> ((\<forall>r\<in>set pre. declines engine host source r) \<longrightarrow>
              resolveId engine host \<lparr>resolvedAliases = Some (pre @ A # mid @ B # post)\<rparr> source
                = Inr (Some i))"
proof -
  have cut: "resolveIdLoop engine host (pre @ A # mid @ B # post) source
           = resolveIdLoop engine host (pre @ [A]) source"
    using assms(2,3) by (rule resolveIdLoop_cut)
  have "resolveIdLoop engine host (pre @ [A]) source = Inr (Some i)"
    if "\<forall>r\<in>set pre. declines engine host source r"
    using resolveIdLoop_skip [OF that, of "[A]"] assms(2,3) by simp
  with cut show ?thesis by (simp add: resolveId_def)
qed

theorem first_match_wins_witness:
  "resolveId (\<lambda>f s. None) (map_of [(''/proj/src/utils'', ''A''), (''/proj/lib/utils'', ''B'')])
     \<lparr>resolvedAliases = Some [\<lparr>findPattern = ''@app'', replacement = ''/proj/src''\<rparr>,
                              \<lparr>findPattern = ''@app'', replacement = ''/proj/lib''\<rparr>]\<rparr>
     ''@app/utils'' = Inr (Some ''A'')"
proof -
  let ?A = "\<lparr>findPattern = ''@app'', replacement = ''/proj/src''\<rparr>"
  let ?B = "\<lparr>findPattern = ''@app'', replacement = ''/proj/lib''\<rparr>"
  let ?host = "map_of [(''/proj/src/utils'', ''A''), (''/proj/lib/utils'', ''B'')]"
  have 1: "findPattern ?A = findPattern ?B" by simp
  have 2: "regExpTest (\<lambda>f s. None) (findPattern ?A) ''@app/utils'' = Some True"
    by (simp add: regExpTest_def syntaxCharacters_def)
  have 3: "?host (replaceString ''@app/utils'' (findPattern ?A) (replacement ?A)) = Some ''A''"
    by (simp add: replaceString_def)
  note T = first_match_wins [where A = "?A" and B = "?B" and engine = "\<lambda>f s. None"
        and host = "?host" and source = "''@app/utils''" and i = "''A''"
        and pre = "[]" and mid = "[]" and post = "[]", OF 1 2 3]
  have "\<forall>r\<in>set []. declines (\<lambda>f s. None) ?host ''@app/utils'' r" by simp
  with T [THEN conjunct2]
  have "resolveId (\<lambda>f s. None) ?host \<lparr>resolvedAliases = Some ([] @ ?A # [] @ ?B # [])\<rparr>
          ''@app/utils'' = Inr (Some ''A'')"
    by (rule mp)
  then show ?thesis by (simp only: append_Nil)
qed

text \<open>
  Claim C8, as amended. Let the \<open>find\<close> of every rule in the front part of the list
  be a valid regular expression, so that its test against the specifier returns true
  or false, and let the host find nothing for the rewritten specifier of every rule
  there that matches. Then these rules are stepped over: the hook goes on with the
  rules behind them. When this holds of the whole list, the hook returns undefined and
  leaves the specifier to the host.
\<close>

theorem hook_falls_through:
  assumes "\<forall>r\<in>set pre. regExpTest engine (findPattern r) source \<noteq> None"
    and "\<forall>r\<in>set pre. regExpTest engine (findPattern r) source = Some True \<longrightarrow>
           host (replaceString source (findPattern r) (replacement r)) = None"
  shows "resolveId engine host \<lparr>resolvedAliases = Some (pre @ rs)\<rparr> source
           = resolveId engine host \<lparr>resolvedAliases = Some rs\<rparr> source
         \<and> resolveId engine host \<lparr>resolvedAliases = Some pre\<rparr> source = Inr None"
proof -
  have "\<forall>r\<in>set pre. declines engine host source r"
  proof
    fix r assume r: "r \<in> set pre"
    with assms(1) obtain matched where m: "regExpTest engine (findPattern r) source = Some matched"
      by (cases "regExpTest engine (findPattern r) source") auto
    show "declines engine host source r"
    proof (cases matched)
      case True
      with m r assms(2) show ?thesis by (simp add: declines_def)
    next
      case False
      with m show ?thesis by (simp add: declines_def)
    qed
  qed
  then show ?thesis
    using resolveIdLoop_skip [of pre engine host source rs]
      resolveIdLoop_skip [of pre engine host source "[]"]
    by (simp add: resolveId_def)
qed

theorem hook_falls_through_witness:
  "resolveId groupEngine (map_of [(''/proj/lib/utils'', ''B'')])
     \<lparr>resolvedAliases = Some [\<lparr>findPattern = ''@app'', replacement = ''/proj/src''\<rparr>,
                              \<lparr>findPattern = ''@lib'', replacement = ''/proj/lib''\<rparr>,
                              \<lparr>findPattern = ''@app'', replacement = ''/proj/lib''\<rparr>]\<rparr>
     ''@app/utils'' = Inr (Some ''B'')
   \<and> resolveId groupEngine (map_of [(''/proj/lib/utils'', ''B'')])
     \<lparr>resolvedAliases = Some [\<lparr>findPattern = ''@app'', replacement = ''/proj/src''\<rparr>,
                              \<lparr>findPattern = ''@lib'', replacement = ''/proj/lib''\<rparr>]\<rparr>
     ''lodash'' = Inr None"
proof -
  let ?A = "\<lparr>findPattern = ''@app'', replacement = ''/proj/src''\<rparr>"
  let ?L = "\<lparr>findPattern = ''@lib'', replacement = ''/proj/lib''\<rparr>"
  let ?B = "\<lparr>findPattern = ''@app'', replacement = ''/proj/lib''\<rparr>"
  let ?host = "map_of [(''/proj/lib/utils'', ''B'')]"
  have v1: "\<forall>r\<in>set [?A, ?L]. regExpTest groupEngine (findPattern r) ''@app/utils'' \<noteq> None"
    by (simp add: regExpTest_def syntaxCharacters_def del: not_None_eq)
  have m1: "\<forall>r\<in>set [?A, ?L]. regExpTest groupEngine (findPattern r) ''@app/utils'' = Some True \<longrightarrow>
              ?host (replaceString ''@app/utils'' (findPattern r) (replacement r)) = None"
    by (simp add: regExpTest_def syntaxCharacters_def replaceString_def)
  have v2: "\<forall>r\<in>set [?A, ?L]. regExpTest groupEngine (findPattern r) ''lodash'' \<noteq> None"
    by (simp add: regExpTest_def syntaxCharacters_def del: not_None_eq)
  have m2: "\<forall>r\<in>set [?A, ?L]. regExpTest groupEngine (findPattern r) ''lodash'' = Some True \<longrightarrow>
              ?host (replaceString ''lodash'' (findPattern r) (replacement r)) = None"
    by (simp add: regExpTest_def syntaxCharacters_def replaceString_def)
  have 3: "resolveId groupEngine ?host \<lparr>resolvedAliases = Some [?B]\<rparr> ''@app/utils''
             = Inr (Some ''B'')"
    by (simp add: resolveId_def regExpTest_def syntaxCharacters_def replaceString_def)
  note T1 = hook_falls_through [where pre = "[?A, ?L]" and engine = groupEngine
              and source = "''@app/utils''" and host = ?host and rs = "[?B]"]
  note T2 = hook_falls_through [where pre = "[?A, ?L]" and engine = groupEngine
              and source = "''lodash''" and host = ?host and rs = "[]"]
  have "resolveId groupEngine ?host \<lparr>resolvedAliases = Some ([?A, ?L] @ [?B])\<rparr> ''@app/utils''
          = resolveId groupEngine ?host \<lparr>resolvedAliases = Some [?B]\<rparr> ''@app/utils''"
    using T1 v1 m1 by blast
  then have a: "resolveId groupEngine ?host \<lparr>resolvedAliases = Some ([?A, ?L] @ [?B])\<rparr>
                  ''@app/utils'' = Inr (Some ''B'')"
    using 3 by (rule trans)
  have b: "resolveId groupEngine ?host \<lparr>resolvedAliases = Some [?A, ?L]\<rparr> ''lodash'' = Inr None"
    using T2 v2 m2 by blast
  from a have "resolveId groupEngine ?host \<lparr>resolvedAliases = Some [?A, ?L, ?B]\<rparr> ''@app/utils''
          = Inr (Some ''B'')"
    by (simp only: append_Cons append_Nil)
  then show ?thesis using b by (rule conjI)
qed

text \<open>
  The claim as first stated fails where a \<open>find\<close> is no valid regular expression. The
  pattern \<open>@(app/*\<close> compiles to the \<open>find\<close> \<open>@(app\<close>, whose group is never closed.
  The constructor throws for it, so the hook fails with a \<open>SyntaxError\<close> for the
  specifier \<open>lodash\<close>, which no rule matches, instead of returning undefined.
\<close>

theorem hook_falls_through_counterexample:
  "resolveAliases_first ''/proj'' ''/proj''
     [\<lparr>baseUrl = Some ''.'', paths = [(''@(app/*'', [''src/*''])]\<rparr>]
     = Inr [\<lparr>findPattern = ''@(app'', replacement = ''/proj/src''\<rparr>]
   \<and> unterminatedGroup ''@(app''
   \<and> regExpTest groupEngine ''@(app'' ''lodash'' = None
   \<and> resolveId groupEngine (map_of [(''/proj/src/utils'', ''A'')])
        \<lparr>resolvedAliases = Some [\<lparr>findPattern = ''@(app'', replacement = ''/proj/src''\<rparr>]\<rparr>
        ''lodash'' = Inl SyntaxError"
  by code_simp

section \<open>How a rule's pattern is matched\<close>

lemma includesStr_iff: "includesStr s p \<longleftrightarrow> (\<exists>a b. s = a @ p @ b)"
proof (induction s)
  case Nil
  show ?case by auto
next
  case (Cons c cs)
  show ?case
  proof
    assume "includesStr (c # cs) p"
    then consider "prefix p (c # cs)" | "includesStr cs p" by auto
    then show "\<exists>a b. c # cs = a @ p @ b"
    proof cases
      case 1
      then obtain b where "c # cs = p @ b" by (auto simp: prefix_def)
      then have "c # cs = [] @ p @ b" by simp
      then show ?thesis by blast
    next
      case 2
      with Cons obtain a b where "cs = a @ p @ b" by auto
      then have "c # cs = (c # a) @ p @ b" by simp
      then show ?thesis by blast
    qed
  next
    assume "\<exists>a b. c # cs = a @ p @ b"
    then obtain a b where ab: "c # cs = a @ p @ b" by auto
    show "includesStr (c # cs) p"
    proof (cases a)
      case Nil
      with ab have "prefix p (c # cs)" unfolding prefix_def by auto
      then show ?thesis by simp
    next
      case (Cons x a')
      with ab have "cs = a' @ p @ b" by simp
      with Cons.IH show ?thesis by auto
    qed
  qed
qed

lemma replaceFirstFrom_leftmost:
  "s = a @ f @ b \<Longrightarrow> (\<forall>a' b'. s = a' @ f @ b' \<longrightarrow> length a \<le> length a') \<Longrightarrow>
     replaceFirstFrom bef f t s = a @ getSubstitution f (bef @ a) b t @ b"
proof (induction a arbitrary: s bef)
  case Nil
  then have s: "s = f @ b" by simp
  show ?case
  proof (cases s)
    case Nil
    with s show ?thesis by simp
  next
    case (Cons c cs)
    with s have fb: "c # cs = f @ b" by simp
    then have pf: "prefix f (c # cs)" unfolding prefix_def by blast
    from fb have d: "drop (length f) (c # cs) = b" by (metis append_eq_conv_conj)
    have "replaceFirstFrom bef f t (c # cs)
            = getSubstitution f bef (drop (length f) (c # cs)) t @ drop (length f) (c # cs)"
      using pf by (simp only: replaceFirstFrom.simps if_True)
    then have "replaceFirstFrom bef f t (c # cs) = getSubstitution f bef b t @ b"
      by (simp only: d)
    then show ?thesis unfolding Cons by simp
  qed
next
  case (Cons x a)
  then have s: "s = x # (a @ f @ b)" by simp
  have np: "\<not> prefix f s"
  proof
    assume "prefix f s"
    then obtain b' where "s = [] @ f @ b'" by (auto simp: prefix_def)
    with Cons.prems(2) have "length (x # a) \<le> length ([]::string)" by blast
    then show False by simp
  qed
  have min: "\<forall>a' b'. a @ f @ b = a' @ f @ b' \<longrightarrow> length a \<le> length a'"
  proof (intro allI impI)
    fix a' b'
    assume "a @ f @ b = a' @ f @ b'"
    then have "s = (x # a') @ f @ b'" using s by simp
    with Cons.prems(2) have "length (x # a) \<le> length (x # a')" by blast
    then show "length a \<le> length a'" by simp
  qed
  have "replaceFirstFrom (bef @ [x]) f t (a @ f @ b)
          = a @ getSubstitution f ((bef @ [x]) @ a) b t @ b"
    using Cons.IH [OF refl min] .
  with np s show ?case by simp
qed

text \<open>
  Claim C10. The hook tests a rule's \<open>find\<close> as a regular expression against the
  whole specifier: a \<open>find\<close> made of plain characters matches wherever it occurs, not
  only at the start, and any other \<open>find\<close> is left to the regular-expression engine.
  On a match the rewrite replaces the leftmost literal occurrence of the \<open>find\<close>
  string. So \<open>x@app/y\<close>, which does not start with \<open>@app\<close>, matches the rule for
  \<open>@app\<close> and is rewritten in its interior.
\<close>

theorem find_tested_as_regexp:
  "(list_all (\<lambda>c. c \<notin> set syntaxCharacters) f \<longrightarrow>
      regExpTest engine f source = Some (\<exists>a b. source = a @ f @ b))
   \<and> (\<not> list_all (\<lambda>c. c \<notin> set syntaxCharacters) f \<longrightarrow>
      regExpTest engine f source = engine f source)
   \<and> (source = a @ f @ b \<and> (\<forall>a' b'. source = a' @ f @ b' \<longrightarrow> length a \<le> length a') \<longrightarrow>
      replaceString source f t = a @ getSubstitution f a b t @ b)
   \<and> \<not> startsWith ''x@app/y'' ''@app''
   \<and> resolveId engine host
        \<lparr>resolvedAliases = Some [\<lparr>findPattern = ''@app'', replacement = ''/proj/src''\<rparr>]\<rparr>
        ''x@app/y'' = Inr (host ''x/proj/src/y'')"
proof -
  have 1: "list_all (\<lambda>c. c \<notin> set syntaxCharacters) f \<longrightarrow>
      regExpTest engine f source = Some (\<exists>a b. source = a @ f @ b)"
    by (simp add: regExpTest_def includesStr_iff)
  have 2: "\<not> list_all (\<lambda>c. c \<notin> set syntaxCharacters) f \<longrightarrow>
      regExpTest engine f source = engine f source"
    by (simp add: regExpTest_def)
  have 3: "source = a @ f @ b \<and> (\<forall>a' b'. source = a' @ f @ b' \<longrightarrow> length a \<le> length a') \<longrightarrow>
      replaceString source f t = a @ getSubstitution f a b t @ b"
    using replaceFirstFrom_leftmost [of source a f b "[]" t] by (simp add: replaceString_def)
  have 4: "\<not> startsWith ''x@app/y'' ''@app''"
    by (simp add: startsWith_def)
  have 5: "resolveId engine host
        \<lparr>resolvedAliases = Some [\<lparr>findPattern = ''@app'', replacement = ''/proj/src''\<rparr>]\<rparr>
        ''x@app/y'' = Inr (host ''x/proj/src/y'')"
    by (simp add: resolveId_def regExpTest_def syntaxCharacters_def replaceString_def
             split: option.splits)
  show ?thesis
    by (intro conjI) (rule 1 2 3 4 5)+
qed

theorem find_tested_as_regexp_witness:
  "regExpTest (\<lambda>f s. None) ''@app'' ''x@app/y'' = Some True
   \<and> regExpTest (\<lambda>f s. None) ''@app/(.*)'' ''x@app/y'' = None
   \<and> replaceString ''x@app/y'' ''@app'' ''/proj/src'' = ''x/proj/src/y''"
proof -
  have lit: "list_all (\<lambda>c. c \<notin> set syntaxCharacters) ''@app''"
    by (simp add: syntaxCharacters_def)
  have nlit: "\<not> list_all (\<lambda>c. c \<notin> set syntaxCharacters) ''@app/(.*)''"
    by (simp add: syntaxCharacters_def)
  have occ: "''x@app/y'' = ''x'' @ ''@app'' @ ''/y''" by simp
  then have ex: "\<exists>a b. ''x@app/y'' = a @ ''@app'' @ b" by blast
  have min: "\<forall>a' b'. ''x@app/y'' = a' @ ''@app'' @ b' \<longrightarrow> length ''x'' \<le> length a'"
  proof (intro allI impI)
    fix a' b' :: string
    assume "''x@app/y'' = a' @ ''@app'' @ b'"
    then have "a' \<noteq> []" by auto
    then show "length ''x'' \<le> length a'" by (cases a') auto
  qed
  note T = find_tested_as_regexp
             [of "''@app''" "\<lambda>f s. None" "''x@app/y''" "''x''" "''/y''" "''/proj/src''"]
  have "regExpTest (\<lambda>f s. None) ''@app'' ''x@app/y''
          = Some (\<exists>a b. ''x@app/y'' = a @ ''@app'' @ b)"
    using T [THEN conjunct1] lit by (rule mp)
  then have 1: "regExpTest (\<lambda>f s. None) ''@app'' ''x@app/y'' = Some True"
    by (simp only: ex)
  have "regExpTest (\<lambda>f s. None) ''@app/(.*)'' ''x@app/y''
          = (\<lambda>f s. None) ''@app/(.*)'' ''x@app/y''"
    using find_tested_as_regexp [of "''@app/(.*)''" "\<lambda>f s. None" "''x@app/y''",
            THEN conjunct2, THEN conjunct1] nlit
    by (rule mp)
  then have 2: "regExpTest (\<lambda>f s. None) ''@app/(.*)'' ''x@app/y'' = None"
    by simp
  have "replaceString ''x@app/y'' ''@app'' ''/proj/src''
          = ''x'' @ getSubstitution ''@app'' ''x'' ''/y'' ''/proj/src'' @ ''/y''"
    using T [THEN conjunct2, THEN conjunct2, THEN conjunct1] conjI [OF occ min] by (rule mp)
  then have 3: "replaceString ''x@app/y'' ''@app'' ''/proj/src'' = ''x/proj/src/y''"
    by simp
  from 1 2 3 show ?thesis by blast
qed

section \<open>Which target is compiled\<close>

lemma filter_map_first:
  "filter P (map f xs) = m # ms \<Longrightarrow>
     \<exists>i<length xs. m = f (xs ! i) \<and> P (f (xs ! i)) \<and> (\<forall>j<i. \<not> P (f (xs ! j)))"
proof (induction xs)
  case Nil
  then show ?case by simp
next
  case (Cons x xs)
  show ?case
  proof (cases "P (f x)")
    case True
    with Cons.prems have "m = f x" by simp
    with True have "0 < length (x # xs) \<and> m = f ((x # xs) ! 0) \<and> P (f ((x # xs) ! 0))
                      \<and> (\<forall>j<0. \<not> P (f ((x # xs) ! j)))"
      by simp
    then show ?thesis by blast
  next
    case False
    with Cons.prems have "filter P (map f xs) = m # ms" by simp
    with Cons.IH obtain i where i: "i < length xs" "m = f (xs ! i)" "P (f (xs ! i))"
      "\<forall>j<i. \<not> P (f (xs ! j))" by blast
    have "\<forall>j<Suc i. \<not> P (f ((x # xs) ! j))"
    proof (intro allI impI)
      fix j assume "j < Suc i"
      then show "\<not> P (f ((x # xs) ! j))"
        using False i(4) by (cases j) auto
    qed
    with i have "Suc i < length (x # xs) \<and> m = f ((x # xs) ! Suc i) \<and> P (f ((x # xs) ! Suc i))
                   \<and> (\<forall>j<Suc i. \<not> P (f ((x # xs) ! j)))"
      by simp
    then show ?thesis by blast
  qed
qed

lemma endsWith_iff: "endsWith s p \<longleftrightarrow> (\<exists>a. s = a @ p)"
  by (simp add: endsWith_def suffix_to_prefix [symmetric] suffix_def)

lemma sliceEnd_append: "sliceEnd (a @ p) (length p) = a"
  by (simp add: sliceEnd_def)

lemma removeSuffix_empty:
  "endsWith pattern tsAliasSuffix \<Longrightarrow> removeSuffixPatternFromTsAlias pattern = [] \<Longrightarrow> pattern = tsAliasSuffix"
  by (auto simp: removeSuffixPatternFromTsAlias_def endsWith_iff sliceEnd_append)

lemma aliasEntry_probe_first_existing:
  assumes "r \<in> set (aliasEntry_probe cwd fs root b (pattern, remaps))"
  shows "\<exists>i<length remaps.
           replacement r = resolveMap cwd (baseUrl_probe root b) (remaps ! i)
           \<and> existsSync fs (resolveMap cwd (baseUrl_probe root b) (remaps ! i))
           \<and> (\<forall>j<i. \<not> existsSync fs (resolveMap cwd (baseUrl_probe root b) (remaps ! j)))"
proof -
  let ?found = "filter (existsSync fs) (map (resolveMap cwd (baseUrl_probe root b)) remaps)"
  show ?thesis
  proof (cases ?found)
    case Nil
    with assms show ?thesis
      by (simp add: aliasEntry_probe_def resolveMaps_def Let_def split: if_splits)
  next
    case (Cons m ms)
    with assms have "replacement r = m"
      by (simp add: aliasEntry_probe_def resolveMaps_def Let_def split: if_splits)
    with Cons have "?found = replacement r # ms" by simp
    then show ?thesis by (rule filter_map_first)
  qed
qed

lemma aliasEntry_probe_length:
  "length (aliasEntry_probe cwd fs root b entry) \<le> 1"
  by (cases entry) (auto simp: aliasEntry_probe_def Let_def split: list.splits)

lemma aliasEntry_first_replacement:
  assumes "aliasEntry_first cwd root b (pattern, t # ts) = Inr rs" and "r \<in> set rs"
  shows "endsWith t tsAliasSuffix
         \<and> replacement r = replacement_first cwd root b (sliceEnd t (length tsAliasSuffix))"
  using assms
  by (auto simp: aliasEntry_first_def tryExtractFindPatternFromTsAlias_def
           split: option.splits if_splits)

lemma replacement_first_shape:
  "\<exists>base template. template \<in> {[], root}
     \<and> replacement_first cwd root b target = resolve cwd [join [base, replaceConfigDir target template]]"
  by (auto simp: replacement_first_def Let_def split: option.splits)

lemma sliceEnd_nonempty:
  "endsWith s tsAliasSuffix \<Longrightarrow> s \<noteq> tsAliasSuffix \<Longrightarrow> sliceEnd s (length tsAliasSuffix) \<noteq> []"
  by (auto simp: endsWith_iff sliceEnd_append)

lemma aliasEntry_first_compiles:
  assumes "endsWith pattern tsAliasSuffix" and "pattern \<noteq> tsAliasSuffix"
    and "endsWith t tsAliasSuffix" and "t \<noteq> tsAliasSuffix"
  shows "aliasEntry_first cwd root b (pattern, t # ts)
           = Inr [\<lparr>findPattern = sliceEnd pattern (length tsAliasSuffix),
                    replacement = replacement_first cwd root b (sliceEnd t (length tsAliasSuffix))\<rparr>]"
  using assms sliceEnd_nonempty [OF assms(1,2)] sliceEnd_nonempty [OF assms(3,4)]
  by (simp add: aliasEntry_first_def tryExtractFindPatternFromTsAlias_def)

lemma aliasEntry_first_skips:
  assumes "\<not> (endsWith pattern tsAliasSuffix \<and> pattern \<noteq> tsAliasSuffix
              \<and> endsWith t tsAliasSuffix \<and> t \<noteq> tsAliasSuffix)"
  shows "aliasEntry_first cwd root b (pattern, t # ts) = Inr []"
proof -
  have bare: "sliceEnd tsAliasSuffix (length tsAliasSuffix) = []"
    by (simp add: sliceEnd_def)
  from assms show ?thesis
    by (auto simp: aliasEntry_first_def tryExtractFindPatternFromTsAlias_def bare
             split: option.splits)
qed

lemma aliasEntry_probe_compiles:
  assumes "endsWith pattern tsAliasSuffix" and "pattern \<noteq> tsAliasSuffix"
    and "\<exists>m\<in>set remaps. existsSync fs (resolveMap cwd (baseUrl_probe root b) m)"
  shows "\<exists>i<length remaps.
           aliasEntry_probe cwd fs root b (pattern, remaps)
             = [\<lparr>findPattern = sliceEnd pattern (length tsAliasSuffix),
                  replacement = resolveMap cwd (baseUrl_probe root b) (remaps ! i)\<rparr>]
           \<and> existsSync fs (resolveMap cwd (baseUrl_probe root b) (remaps ! i))
           \<and> (\<forall>j<i. \<not> existsSync fs (resolveMap cwd (baseUrl_probe root b) (remaps ! j)))"
proof -
  let ?found = "filter (existsSync fs) (map (resolveMap cwd (baseUrl_probe root b)) remaps)"
  from assms(1) have rm: "removeSuffixPatternFromTsAlias pattern = sliceEnd pattern (length tsAliasSuffix)"
    by (simp add: removeSuffixPatternFromTsAlias_def)
  have ne: "sliceEnd pattern (length tsAliasSuffix) \<noteq> []"
    using assms(1,2) by (rule sliceEnd_nonempty)
  from assms(3) have "?found \<noteq> []" by (auto simp: filter_empty_conv)
  then obtain m ms where found: "?found = m # ms" by (cases ?found) auto
  then have "m \<in> set (map (resolveMap cwd (baseUrl_probe root b)) remaps)"
    by (metis filter_is_subset list.set_intros(1) subsetD)
  then have m: "m \<noteq> []" by (auto simp: resolveMap_nonempty)
  from found rm ne m have entry: "aliasEntry_probe cwd fs root b (pattern, remaps)
      = [\<lparr>findPattern = sliceEnd pattern (length tsAliasSuffix), replacement = m\<rparr>]"
    by (simp add: aliasEntry_probe_def resolveMaps_def Let_def)
  from filter_map_first [OF found] obtain i where
    "i < length remaps" "m = resolveMap cwd (baseUrl_probe root b) (remaps ! i)"
    "existsSync fs (resolveMap cwd (baseUrl_probe root b) (remaps ! i))"
    "\<forall>j<i. \<not> existsSync fs (resolveMap cwd (baseUrl_probe root b) (remaps ! j))"
    by blast
  with entry show ?thesis by blast
qed

text \<open>
  Claim C2. In the existence-checking variant every rule compiled from an entry has as
  its replacement the resolved path of the first target, in the order listed, whose
  resolved path exists; no rule is compiled when no target's path exists, and when a
  path exists and the pattern is more than the bare suffix, exactly one rule is
  compiled, from the first target whose path exists. In the always-first-priority
  variant an entry whose pattern and whose first target both end with the suffix, and
  are more than the bare suffix, compiles to exactly one rule: its replacement is built
  from the first target, stripped of its suffix and with its placeholders substituted,
  whether or not anything exists at that path. In every other case the entry compiles
  to no rule; a later target is never tried. The later targets do not matter, and the
  file system is no argument of that compiler.
\<close>

theorem target_selection:
  "(\<forall>r\<in>set (aliasEntry_probe cwd fs root b (pattern, remaps)).
      \<exists>i<length remaps.
         replacement r = resolveMap cwd (baseUrl_probe root b) (remaps ! i)
         \<and> existsSync fs (resolveMap cwd (baseUrl_probe root b) (remaps ! i))
         \<and> (\<forall>j<i. \<not> existsSync fs (resolveMap cwd (baseUrl_probe root b) (remaps ! j))))
   \<and> ((\<forall>m\<in>set remaps. \<not> existsSync fs (resolveMap cwd (baseUrl_probe root b) m)) \<longrightarrow>
        aliasEntry_probe cwd fs root b (pattern, remaps) = [])
   \<and> (endsWith pattern tsAliasSuffix \<and> pattern \<noteq> tsAliasSuffix
        \<and> (\<exists>m\<in>set remaps. existsSync fs (resolveMap cwd (baseUrl_probe root b) m)) \<longrightarrow>
        length (aliasEntry_probe cwd fs root b (pattern, remaps)) = 1)
   \<and> (\<forall>rs. aliasEntry_first cwd root b (pattern, t # ts) = Inr rs \<longrightarrow>
        (\<forall>r\<in>set rs. endsWith t tsAliasSuffix
           \<and> (\<exists>base template. template \<in> {[], root}
                \<and> replacement r = resolve cwd
                     [join [base, replaceConfigDir (sliceEnd t (length tsAliasSuffix)) template]])))
   \<and> aliasEntry_first cwd root b (pattern, t # ts) = aliasEntry_first cwd root b (pattern, [t])
   \<and> (endsWith pattern tsAliasSuffix \<and> pattern \<noteq> tsAliasSuffix
        \<and> endsWith t tsAliasSuffix \<and> t \<noteq> tsAliasSuffix \<longrightarrow>
        aliasEntry_first cwd root b (pattern, t # ts)
          = Inr [\<lparr>findPattern = sliceEnd pattern (length tsAliasSuffix),
                   replacement = replacement_first cwd root b (sliceEnd t (length tsAliasSuffix))\<rparr>])
   \<and> (\<not> (endsWith pattern tsAliasSuffix \<and> pattern \<noteq> tsAliasSuffix
            \<and> endsWith t tsAliasSuffix \<and> t \<noteq> tsAliasSuffix) \<longrightarrow>
        aliasEntry_first cwd root b (pattern, t # ts) = Inr [])
   \<and> (endsWith pattern tsAliasSuffix \<and> pattern \<noteq> tsAliasSuffix
        \<and> (\<exists>m\<in>set remaps. existsSync fs (resolveMap cwd (baseUrl_probe root b) m)) \<longrightarrow>
        (\<exists>i<length remaps.
           aliasEntry_probe cwd fs root b (pattern, remaps)
             = [\<lparr>findPattern = sliceEnd pattern (length tsAliasSuffix),
                  replacement = resolveMap cwd (baseUrl_probe root b) (remaps ! i)\<rparr>]
           \<and> existsSync fs (resolveMap cwd (baseUrl_probe root b) (remaps ! i))
           \<and> (\<forall>j<i. \<not> existsSync fs (resolveMap cwd (baseUrl_probe root b) (remaps ! j)))))"
proof -
  have 1: "\<forall>r\<in>set (aliasEntry_probe cwd fs root b (pattern, remaps)).
      \<exists>i<length remaps.
         replacement r = resolveMap cwd (baseUrl_probe root b) (remaps ! i)
         \<and> existsSync fs (resolveMap cwd (baseUrl_probe root b) (remaps ! i))
         \<and> (\<forall>j<i. \<not> existsSync fs (resolveMap cwd (baseUrl_probe root b) (remaps ! j)))"
    using aliasEntry_probe_first_existing by blast
  have 2: "(\<forall>m\<in>set remaps. \<not> existsSync fs (resolveMap cwd (baseUrl_probe root b) m)) \<longrightarrow>
        aliasEntry_probe cwd fs root b (pattern, remaps) = []"
    using aliasEntry_probe_empty_iff [of cwd fs root b pattern remaps] by blast
  have 3: "endsWith pattern tsAliasSuffix \<and> pattern \<noteq> tsAliasSuffix
        \<and> (\<exists>m\<in>set remaps. existsSync fs (resolveMap cwd (baseUrl_probe root b) m)) \<longrightarrow>
        length (aliasEntry_probe cwd fs root b (pattern, remaps)) = 1"
  proof
    assume h: "endsWith pattern tsAliasSuffix \<and> pattern \<noteq> tsAliasSuffix
        \<and> (\<exists>m\<in>set remaps. existsSync fs (resolveMap cwd (baseUrl_probe root b) m))"
    then have "removeSuffixPatternFromTsAlias pattern \<noteq> []"
      using removeSuffix_empty by blast
    with h have "aliasEntry_probe cwd fs root b (pattern, remaps) \<noteq> []"
      using aliasEntry_probe_empty_iff [of cwd fs root b pattern remaps] by blast
    then have "length (aliasEntry_probe cwd fs root b (pattern, remaps)) \<noteq> 0" by simp
    with aliasEntry_probe_length [of cwd fs root b "(pattern, remaps)"]
    show "length (aliasEntry_probe cwd fs root b (pattern, remaps)) = 1" by linarith
  qed
  have 4: "\<forall>rs. aliasEntry_first cwd root b (pattern, t # ts) = Inr rs \<longrightarrow>
        (\<forall>r\<in>set rs. endsWith t tsAliasSuffix
           \<and> (\<exists>base template. template \<in> {[], root}
                \<and> replacement r = resolve cwd
                     [join [base, replaceConfigDir (sliceEnd t (length tsAliasSuffix)) template]]))"
    using aliasEntry_first_replacement [of cwd root b pattern t ts]
      replacement_first_shape [of root cwd b "sliceEnd t (length tsAliasSuffix)"]
    by metis
  have 5: "aliasEntry_first cwd root b (pattern, t # ts) = aliasEntry_first cwd root b (pattern, [t])"
    by (simp add: aliasEntry_first_def)
  have 6: "endsWith pattern tsAliasSuffix \<and> pattern \<noteq> tsAliasSuffix
        \<and> endsWith t tsAliasSuffix \<and> t \<noteq> tsAliasSuffix \<longrightarrow>
        aliasEntry_first cwd root b (pattern, t # ts)
          = Inr [\<lparr>findPattern = sliceEnd pattern (length tsAliasSuffix),
                   replacement = replacement_first cwd root b (sliceEnd t (length tsAliasSuffix))\<rparr>]"
    using aliasEntry_first_compiles by blast
  have 7: "\<not> (endsWith pattern tsAliasSuffix \<and> pattern \<noteq> tsAliasSuffix
            \<and> endsWith t tsAliasSuffix \<and> t \<noteq> tsAliasSuffix) \<longrightarrow>
        aliasEntry_first cwd root b (pattern, t # ts) = Inr []"
    using aliasEntry_first_skips by blast
  have 8: "endsWith pattern tsAliasSuffix \<and> pattern \<noteq> tsAliasSuffix
        \<and> (\<exists>m\<in>set remaps. existsSync fs (resolveMap cwd (baseUrl_probe root b) m)) \<longrightarrow>
        (\<exists>i<length remaps.
           aliasEntry_probe cwd fs root b (pattern, remaps)
             = [\<lparr>findPattern = sliceEnd pattern (length tsAliasSuffix),
                  replacement = resolveMap cwd (baseUrl_probe root b) (remaps ! i)\<rparr>]
           \<and> existsSync fs (resolveMap cwd (baseUrl_probe root b) (remaps ! i))
           \<and> (\<forall>j<i. \<not> existsSync fs (resolveMap cwd (baseUrl_probe root b) (remaps ! j))))"
    using aliasEntry_probe_compiles [of pattern remaps fs cwd root b] by blast
  show ?thesis
    by (intro conjI) (rule 1 2 3 4 5 6 7 8)+
qed

theorem target_selection_witness:
  "length (aliasEntry_probe ''/cwd'' (map_of [(''/proj/src'', Directory)]) ''/proj'' (Some ''.'')
             (''@x/*'', [''missing/*'', ''src/*''])) = 1
   \<and> aliasEntry_probe ''/cwd'' (map_of [(''/proj/lib'', Directory)]) ''/proj'' (Some ''.'')
             (''@x/*'', [''missing/*'', ''src/*'']) = []
   \<and> aliasEntry_first ''/cwd'' ''/proj'' (Some ''.'') (''@x/*'', [''missing/*'', ''src/*''])
       = aliasEntry_first ''/cwd'' ''/proj'' (Some ''.'') (''@x/*'', [''missing/*''])
   \<and> aliasEntry_first ''/cwd'' ''/proj'' (Some ''.'') (''@x/*'', [''missing/*'', ''src/*''])
       = Inr [\<lparr>findPattern = ''@x'', replacement = ''/proj/missing''\<rparr>]
   \<and> aliasEntry_first ''/cwd'' ''/proj'' (Some ''.'') (''@x/*'', [''src'', ''lib/*'']) = Inr []
   \<and> aliasEntry_probe ''/cwd'' (map_of [(''/proj/src'', Directory)]) ''/proj'' (Some ''.'')
             (''@x/*'', [''missing/*'', ''src/*''])
       = [\<lparr>findPattern = ''@x'', replacement = ''/proj/src''\<rparr>]"
proof -
  let ?remaps = "[''missing/*'', ''src/*'']"
  let ?fs = "map_of [(''/proj/src'', Directory)]"
  let ?rm = "resolveMap ''/cwd'' (baseUrl_probe ''/proj'' (Some ''.''))"
  have p: "endsWith ''@x/*'' tsAliasSuffix \<and> ''@x/*'' \<noteq> tsAliasSuffix
        \<and> (\<exists>m\<in>set ?remaps. existsSync ?fs (?rm m))"
    by code_simp
  have n: "\<forall>m\<in>set ?remaps. \<not> existsSync (map_of [(''/proj/lib'', Directory)]) (?rm m)"
    by code_simp
  have q: "endsWith ''@x/*'' tsAliasSuffix \<and> ''@x/*'' \<noteq> tsAliasSuffix
        \<and> endsWith ''missing/*'' tsAliasSuffix \<and> ''missing/*'' \<noteq> tsAliasSuffix"
    by code_simp
  have s: "\<not> (endsWith ''@x/*'' tsAliasSuffix \<and> ''@x/*'' \<noteq> tsAliasSuffix
        \<and> endsWith ''src'' tsAliasSuffix \<and> ''src'' \<noteq> tsAliasSuffix)"
    by code_simp
  note T1 = target_selection [of "''/cwd''" ?fs "''/proj''"
              "Some ''.''" "''@x/*''" ?remaps "''missing/*''" "[''src/*'']"]
  note T2 = target_selection [of "''/cwd''" "map_of [(''/proj/lib'', Directory)]" "''/proj''"
              "Some ''.''" "''@x/*''" ?remaps "''missing/*''" "[''src/*'']"]
  note T3 = target_selection [of "''/cwd''" ?fs "''/proj''"
              "Some ''.''" "''@x/*''" ?remaps "''src''" "[''lib/*'']"]
  have 1: "length (aliasEntry_probe ''/cwd'' ?fs ''/proj'' (Some ''.'') (''@x/*'', ?remaps)) = 1"
    using T1 [THEN conjunct2, THEN conjunct2, THEN conjunct1] p by (rule mp)
  have 2: "aliasEntry_probe ''/cwd'' (map_of [(''/proj/lib'', Directory)]) ''/proj'' (Some ''.'')
             (''@x/*'', ?remaps) = []"
    using T2 [THEN conjunct2, THEN conjunct1] n by (rule mp)
  have 3: "aliasEntry_first ''/cwd'' ''/proj'' (Some ''.'') (''@x/*'', ?remaps)
       = aliasEntry_first ''/cwd'' ''/proj'' (Some ''.'') (''@x/*'', [''missing/*''])"
    using T1 [THEN conjunct2, THEN conjunct2, THEN conjunct2, THEN conjunct2, THEN conjunct1] .
  have "aliasEntry_first ''/cwd'' ''/proj'' (Some ''.'') (''@x/*'', ?remaps)
       = Inr [\<lparr>findPattern = sliceEnd ''@x/*'' (length tsAliasSuffix),
                replacement = replacement_first ''/cwd'' ''/proj'' (Some ''.'')
                                (sliceEnd ''missing/*'' (length tsAliasSuffix))\<rparr>]"
    using T1 [THEN conjunct2, THEN conjunct2, THEN conjunct2, THEN conjunct2, THEN conjunct2,
              THEN conjunct1] q
    by (rule mp)
  moreover have "\<lparr>findPattern = sliceEnd ''@x/*'' (length tsAliasSuffix),
                replacement = replacement_first ''/cwd'' ''/proj'' (Some ''.'')
                                (sliceEnd ''missing/*'' (length tsAliasSuffix))\<rparr>
       = \<lparr>findPattern = ''@x'', replacement = ''/proj/missing''\<rparr>"
    by code_simp
  ultimately have 4: "aliasEntry_first ''/cwd'' ''/proj'' (Some ''.'') (''@x/*'', ?remaps)
       = Inr [\<lparr>findPattern = ''@x'', replacement = ''/proj/missing''\<rparr>]"
    by (simp only:)
  have 5: "aliasEntry_first ''/cwd'' ''/proj'' (Some ''.'') (''@x/*'', [''src'', ''lib/*'']) = Inr []"
    using T3 [THEN conjunct2, THEN conjunct2, THEN conjunct2, THEN conjunct2, THEN conjunct2,
              THEN conjunct2, THEN conjunct1] s
    by (rule mp)
  have "\<exists>i<length ?remaps.
           aliasEntry_probe ''/cwd'' ?fs ''/proj'' (Some ''.'') (''@x/*'', ?remaps)
             = [\<lparr>findPattern = sliceEnd ''@x/*'' (length tsAliasSuffix),
                  replacement = ?rm (?remaps ! i)\<rparr>]
           \<and> existsSync ?fs (?rm (?remaps ! i))
           \<and> (\<forall>j<i. \<not> existsSync ?fs (?rm (?remaps ! j)))"
    using T1 [THEN conjunct2, THEN conjunct2, THEN conjunct2, THEN conjunct2, THEN conjunct2,
              THEN conjunct2, THEN conjunct2] p
    by (rule mp)
  then obtain i where i: "i < length ?remaps"
    "aliasEntry_probe ''/cwd'' ?fs ''/proj'' (Some ''.'') (''@x/*'', ?remaps)
       = [\<lparr>findPattern = sliceEnd ''@x/*'' (length tsAliasSuffix), replacement = ?rm (?remaps ! i)\<rparr>]"
    "existsSync ?fs (?rm (?remaps ! i))"
    by blast
  have ne0: "\<not> existsSync ?fs (?rm (?remaps ! 0))" by code_simp
  have "i = 1"
  proof (cases i)
    case 0
    with i(3) ne0 show ?thesis by simp
  next
    case (Suc k)
    with i(1) show ?thesis by simp
  qed
  moreover have "\<lparr>findPattern = sliceEnd ''@x/*'' (length tsAliasSuffix), replacement = ?rm (?remaps ! 1)\<rparr>
       = \<lparr>findPattern = ''@x'', replacement = ''/proj/src''\<rparr>"
    by code_simp
  ultimately have 6: "aliasEntry_probe ''/cwd'' ?fs ''/proj'' (Some ''.'') (''@x/*'', ?remaps)
       = [\<lparr>findPattern = ''@x'', replacement = ''/proj/src''\<rparr>]"
    using i(2) by (simp only:)
  show ?thesis
    by (intro conjI) (rule 1 2 3 4 5 6)+
qed

section \<open>Parents without the placeholder\<close>

lemma indexOf_None: "\<not> includesStr s p \<Longrightarrow> indexOf s p = None"
  by (induction s) auto

lemma includesStr_drop: "includesStr (drop n s) p \<Longrightarrow> includesStr s p"
proof -
  assume "includesStr (drop n s) p"
  then obtain a b where "drop n s = a @ p @ b" by (auto simp: includesStr_iff)
  then have "s = (take n s @ a) @ p @ b" by (metis append_take_drop_id append_assoc)
  then show ?thesis unfolding includesStr_iff by blast
qed

lemma test_without_token:
  "\<not> includesStr s configDirToken \<Longrightarrow> configDirRegex_test li s = (False, 0)"
proof -
  assume "\<not> includesStr s configDirToken"
  then have "\<not> includesStr (drop li s) configDirToken"
    using includesStr_drop by blast
  then have "indexOf (drop li s) configDirToken = None"
    by (rule indexOf_None)
  then show ?thesis by (simp add: configDirRegex_test_def)
qed

lemma filterValues_without_token:
  "\<forall>v\<in>set vs. \<not> includesStr v configDirToken \<Longrightarrow> fst (filterValues li vs) = 0"
  by (induction vs arbitrary: li) (auto simp: test_without_token split: prod.splits)

lemma filterEntries_without_token:
  "\<forall>e\<in>set es. \<forall>v\<in>set (snd e). \<not> includesStr v configDirToken \<Longrightarrow>
     \<exists>li'. filterEntries li es = ([], False, li')"
proof (induction es arbitrary: li)
  case Nil
  show ?case by simp
next
  case (Cons e es)
  obtain pattern vs where e: "e = (pattern, vs)" by (cases e)
  obtain n li1 where fv: "filterValues li vs = (n, li1)" by (cases "filterValues li vs")
  from Cons.prems e have "fst (filterValues li vs) = 0"
    using filterValues_without_token [of vs li] by simp
  with fv have n: "n = 0" by simp
  from Cons obtain li2 where "filterEntries li1 es = ([], False, li2)" by fastforce
  with e fv n show ?case by simp
qed

lemma toString_without_token:
  "\<forall>s. b = Some s \<longrightarrow> \<not> includesStr s configDirToken \<Longrightarrow>
     \<not> includesStr (toString b) configDirToken"
  by (cases b) (simp_all add: toString_def configDirToken_def)

lemma resolveAliases_probe_no_paths:
  "\<forall>a\<in>set as. paths a = [] \<Longrightarrow> resolveAliases_probe cwd fs root as = []"
  by (induction as) (simp_all add: resolveAliases_probe_def)

lemma resolveAliases_first_no_paths:
  "\<forall>a\<in>set as. paths a = [] \<Longrightarrow> resolveAliases_first cwd root as = Inr []"
  by (induction as) simp_all

text \<open>
  Claim C4. Let an entry of \<open>extends\<close> lead to a parent configuration whose
  \<open>baseUrl\<close>, if any, contains no \<open>${configDir}\<close> and none of whose targets
  contains it. Then the round of the walker for that parent throws nothing, every alias
  set it pushes has an empty \<open>paths\<close>, and both compilers turn what it pushes into
  no rule at all, whatever the parent's \<open>paths\<close> holds.
\<close>

theorem parent_without_placeholder:
  assumes "resolveTsConfigPath cwd fs (extendsTarget cwd root extendsPath) = Inr (Some parent)"
    and "\<forall>s. cfg_baseUrl parent = Some s \<longrightarrow> \<not> includesStr s configDirToken"
    and "\<forall>ps. cfg_paths parent = Some ps \<longrightarrow>
           (\<forall>e\<in>set ps. \<forall>v\<in>set (snd e). \<not> includesStr v configDirToken)"
  shows "\<exists>pushed li'. extendsStep cwd fs root li extendsPath = (Inr pushed, li')
           \<and> (\<forall>a\<in>set pushed. paths a = [])
           \<and> resolveAliases_probe cwd' fs' root' pushed = []
           \<and> resolveAliases_first cwd' root' pushed = Inr []"
proof -
  have t: "configDirRegex_test li (toString (cfg_baseUrl parent)) = (False, 0)"
    using assms(2) by (intro test_without_token toString_without_token)
  have "\<exists>pushed li'. extendsStep cwd fs root li extendsPath = (Inr pushed, li')
           \<and> (\<forall>a\<in>set pushed. paths a = [])"
  proof (cases "cfg_paths parent")
    case None
    with assms(1) t show ?thesis by (simp add: extendsStep_def Let_def)
  next
    case (Some ps)
    with assms(3) obtain li' where "filterEntries 0 ps = ([], False, li')"
      using filterEntries_without_token [of ps 0] by blast
    with assms(1) t Some show ?thesis by (auto simp: extendsStep_def Let_def)
  qed
  then obtain pushed li' where p: "extendsStep cwd fs root li extendsPath = (Inr pushed, li')"
    "\<forall>a\<in>set pushed. paths a = []" by blast
  with resolveAliases_probe_no_paths [of pushed cwd' fs' root']
    resolveAliases_first_no_paths [of pushed cwd' root']
  show ?thesis by blast
qed


theorem parent_without_placeholder_witness:
  "extendsStep ''/proj''
     (map_of [(''/proj/node_modules/@org/base.json'',
        File (Some \<lparr>cfg_extends = None, cfg_baseUrl = Some ''./src'',
                     cfg_paths = Some [(''@lib/*'', [''lib/*''])]\<rparr>))])
     ''/proj'' 0 ''@org/base''
   = (Inr [\<lparr>baseUrl = Some ''./src'', paths = []\<rparr>], 0)
   \<and> (\<exists>pushed li'. extendsStep ''/proj''
     (map_of [(''/proj/node_modules/@org/base.json'',
        File (Some \<lparr>cfg_extends = None, cfg_baseUrl = Some ''./src'',
                     cfg_paths = Some [(''@lib/*'', [''lib/*''])]\<rparr>))])
     ''/proj'' 0 ''@org/base'' = (Inr pushed, li')
       \<and> (\<forall>a\<in>set pushed. paths a = [])
       \<and> resolveAliases_probe ''/proj'' (map_of [(''/proj/lib'', Directory)]) ''/proj'' pushed = []
       \<and> resolveAliases_first ''/proj'' ''/proj'' pushed = Inr [])"
proof -
  let ?parent = "\<lparr>cfg_extends = None, cfg_baseUrl = Some ''./src'',
                   cfg_paths = Some [(''@lib/*'', [''lib/*''])]\<rparr>"
  let ?fs = "map_of [(''/proj/node_modules/@org/base.json'', File (Some ?parent))]"
  have 1: "resolveTsConfigPath ''/proj'' ?fs (extendsTarget ''/proj'' ''/proj'' ''@org/base'')
             = Inr (Some ?parent)"
    by code_simp
  have 2: "\<forall>s. cfg_baseUrl ?parent = Some s \<longrightarrow> \<not> includesStr s configDirToken"
    by (simp add: configDirToken_def)
  have 3: "\<forall>ps. cfg_paths ?parent = Some ps \<longrightarrow>
           (\<forall>e\<in>set ps. \<forall>v\<in>set (snd e). \<not> includesStr v configDirToken)"
    by (simp add: configDirToken_def)
  have 4: "extendsStep ''/proj'' ?fs ''/proj'' 0 ''@org/base''
             = (Inr [\<lparr>baseUrl = Some ''./src'', paths = []\<rparr>], 0)"
    by code_simp
  from 4 parent_without_placeholder [OF 1 2 3, of 0 "''/proj''" "map_of [(''/proj/lib'', Directory)]" "''/proj''"]
  show ?thesis by (rule conjI)
qed

section \<open>Normalised paths\<close>

lemma segments_nonempty: "segments s \<noteq> []"
  by (induction s) (auto split: list.splits)

lemma segments_no_slash: "seg \<in> set (segments s) \<Longrightarrow> CHR ''/'' \<notin> set seg"
  by (induction s arbitrary: seg) (auto split: list.splits if_splits)

lemma segments_append_slash:
  "CHR ''/'' \<notin> set a \<Longrightarrow> segments (a @ CHR ''/'' # t) = a # segments t"
  by (induction a) auto

lemma segments_plain: "CHR ''/'' \<notin> set a \<Longrightarrow> segments a = [a]"
  by (induction a) auto

lemma joinSlash_Cons_Cons: "joinSlash ((c # seg) # rest) = c # joinSlash (seg # rest)"
  by (cases rest) auto

lemma joinSlash_segments: "joinSlash (segments s) = s"
proof (induction s)
  case Nil
  show ?case by simp
next
  case (Cons c cs)
  obtain seg rest where sr: "segments cs = seg # rest"
    using segments_nonempty [of cs] by (cases "segments cs") auto
  with Cons show ?case by (auto simp: joinSlash_Cons_Cons)
qed

lemma segments_joinSlash_append:
  "ns \<noteq> [] \<Longrightarrow> \<forall>n\<in>set ns. CHR ''/'' \<notin> set n \<Longrightarrow>
     segments (joinSlash ns @ CHR ''/'' # t) = ns @ segments t"
proof (induction ns rule: joinSlash.induct)
  case 1
  then show ?case by simp
next
  case (2 s)
  then show ?case by (simp add: segments_append_slash)
next
  case (3 s u us)
  then have "segments (joinSlash (u # us) @ CHR ''/'' # t) = (u # us) @ segments t" by simp
  with 3 show ?case by (simp add: segments_append_slash)
qed

lemma normalizeSegments_plain:
  "\<forall>x\<in>set st. plainSegment x \<Longrightarrow> \<forall>x\<in>set segs. CHR ''/'' \<notin> set x \<Longrightarrow>
     \<forall>x\<in>set (normalizeSegments False st segs). plainSegment x"
proof (induction segs arbitrary: st)
  case Nil
  then show ?case by simp
next
  case (Cons seg segs)
  note IH = Cons.IH and st = Cons.prems(1)
  from Cons.prems(2) have segs: "\<forall>x\<in>set segs. CHR ''/'' \<notin> set x" and seg: "CHR ''/'' \<notin> set seg"
    by simp_all
  consider "seg = [] \<or> seg = ''.''" | "seg = ''..''" | "plainSegment seg"
    using seg by (auto simp: plainSegment_def)
  then show ?case
  proof cases
    case 1
    with IH [OF st segs] show ?thesis by auto
  next
    case 2
    show ?thesis
    proof (cases st)
      case Nil
      with 2 IH [of "[]"] segs show ?thesis by simp
    next
      case (Cons seg0 st')
      with st have "seg0 \<noteq> ''..''" and st': "\<forall>x\<in>set st'. plainSegment x"
        by (auto simp: plainSegment_def)
      with 2 Cons IH [OF st' segs] show ?thesis by simp
    qed
  next
    case 3
    with st have "\<forall>x\<in>set (seg # st). plainSegment x" by simp
    from IH [OF this segs] 3 show ?thesis by (simp add: plainSegment_def)
  qed
qed

lemma normalizeSegments_push:
  "\<forall>x\<in>set ns. plainSegment x \<Longrightarrow>
     normalizeSegments allow st (ns @ rest) = normalizeSegments allow (rev ns @ st) rest"
  by (induction ns arbitrary: st) (auto simp: plainSegment_def)

lemma resolveLoop_absolute:
  "isAbsolute cwd \<Longrightarrow> snd (resolveLoop (ps @ [cwd]) acc)"
  by (induction ps arbitrary: acc) (auto simp: isAbsolute_def)

lemma resolve_shape:
  assumes "isAbsolute cwd"
  shows "\<exists>ns. resolve cwd args = CHR ''/'' # joinSlash ns \<and> (\<forall>n\<in>set ns. plainSegment n)"
proof -
  obtain path ab where r: "resolveLoop (rev args @ [cwd]) [] = (path, ab)"
    by (cases "resolveLoop (rev args @ [cwd]) []")
  with resolveLoop_absolute [OF assms, of "rev args" "[]"] have ab by simp
  let ?ns = "normalizeSegments False [] (segments path)"
  have "\<forall>n\<in>set ?ns. plainSegment n"
    using normalizeSegments_plain [of "[]" "segments path"] segments_no_slash by auto
  moreover have "resolve cwd args = CHR ''/'' # joinSlash ?ns"
    using r \<open>ab\<close> by (simp add: resolve_def normalizeString_def)
  ultimately show ?thesis by blast
qed

lemma resolve_normal:
  assumes "\<forall>n\<in>set ns. plainSegment n"
  shows "resolve cwd [CHR ''/'' # joinSlash ns] = CHR ''/'' # joinSlash ns"
proof -
  have loop: "resolveLoop (rev [CHR ''/'' # joinSlash ns] @ [cwd]) []
          = ((CHR ''/'' # joinSlash ns) @ ''/'', True)"
    by (simp add: isAbsolute_def)
  have "normalizeSegments False [] (segments ((CHR ''/'' # joinSlash ns) @ ''/'')) = ns"
  proof (cases "ns = []")
    case True
    then show ?thesis by simp
  next
    case False
    from assms have ns: "\<forall>n\<in>set ns. CHR ''/'' \<notin> set n" by (simp add: plainSegment_def)
    have "segments ((CHR ''/'' # joinSlash ns) @ ''/'') = [] # ns @ [[]]"
      using segments_joinSlash_append [OF False ns, of "[]"] by simp
    then have "normalizeSegments False [] (segments ((CHR ''/'' # joinSlash ns) @ ''/''))
             = normalizeSegments False [] (ns @ [[]])" by simp
    also have "\<dots> = normalizeSegments False (rev ns @ []) [[]]"
      using assms by (rule normalizeSegments_push)
    also have "\<dots> = ns" by simp
    finally show ?thesis .
  qed
  with loop show ?thesis
    by (simp only: resolve_def normalizeString_def Let_def prod.case if_True simp_thms)
qed

lemma resolve_idem: "isAbsolute cwd \<Longrightarrow> resolve cwd [resolve cwd args] = resolve cwd args"
  using resolve_shape [of cwd args] resolve_normal by metis


section \<open>Missing and malformed configuration files\<close>

lemma reader_missing:
  "isAbsolute cwd \<Longrightarrow> fs (resolve cwd [p]) = None \<Longrightarrow> resolveTsConfigPath cwd fs p = Inr None"
  by (simp add: resolveTsConfigPath_def Let_def existsSync_def resolve_idem)

lemma reader_unparseable:
  "isAbsolute cwd \<Longrightarrow> fs (resolve cwd [p]) = Some (File None) \<Longrightarrow>
     resolveTsConfigPath cwd fs p = Inl SyntaxError"
  by (simp add: resolveTsConfigPath_def Let_def existsSync_def resolve_idem)

lemma extendsStep_reader_error:
  "resolveTsConfigPath cwd fs (extendsTarget cwd root x) = Inl e \<Longrightarrow>
     extendsStep cwd fs root li x = (Inl e, li)"
  by (simp add: extendsStep_def)

lemma extendsLoop_error:
  "x \<in> set es \<Longrightarrow> resolveTsConfigPath cwd fs (extendsTarget cwd root x) = Inl e0 \<Longrightarrow>
     \<exists>e. fst (extendsLoop cwd fs root li es) = Inl e"
proof (induction es arbitrary: li)
  case Nil
  then show ?case by simp
next
  case (Cons y es)
  obtain res li1 where step: "extendsStep cwd fs root li y = (res, li1)"
    by (cases "extendsStep cwd fs root li y")
  show ?case
  proof (cases res)
    case (Inl e)
    with step show ?thesis by simp
  next
    case (Inr pushed)
    with step Cons.prems extendsStep_reader_error [of cwd fs root y e0 li] have "x \<in> set es"
      by auto
    with Cons.IH [of li1] Cons.prems(2) obtain e where "fst (extendsLoop cwd fs root li1 es) = Inl e"
      by blast
    with step Inr show ?thesis by (auto split: prod.splits sum.splits)
  qed
qed

lemma walker_reader_error:
  "resolveTsConfigPath cwd fs tsConfig = Inl e \<Longrightarrow>
     fst (getRecursivePathsFromTsConfig cwd fs root li tsConfig) = Inl e"
  by (simp add: getRecursivePathsFromTsConfig_def)

lemma walker_extends_error:
  assumes "resolveTsConfigPath cwd fs tsConfig = Inr (Some c)" and "cfg_extends c = Some es"
    and "x \<in> set es" and "resolveTsConfigPath cwd fs (extendsTarget cwd root x) = Inl e0"
  shows "\<exists>e. fst (getRecursivePathsFromTsConfig cwd fs root li tsConfig) = Inl e"
proof -
  obtain e where "fst (extendsLoop cwd fs root li es) = Inl e"
    using extendsLoop_error [OF assms(3,4)] by blast
  with assms(1,2) show ?thesis
    by (auto simp: getRecursivePathsFromTsConfig_def Let_def split: prod.splits sum.splits)
qed

lemma collectAliases_error:
  "tsConfig \<in> set files \<Longrightarrow>
   \<forall>li'. \<exists>e. fst (getRecursivePathsFromTsConfig cwd fs root li' tsConfig) = Inl e \<Longrightarrow>
     \<exists>e. fst (collectAliases cwd fs root li files) = Inl e"
proof (induction files arbitrary: li)
  case Nil
  then show ?case by simp
next
  case (Cons f files)
  obtain res li1 where step: "getRecursivePathsFromTsConfig cwd fs root li f = (res, li1)"
    by (cases "getRecursivePathsFromTsConfig cwd fs root li f")
  show ?case
  proof (cases res)
    case (Inl e)
    with step show ?thesis by simp
  next
    case (Inr found)
    with step Cons.prems(2) have "f \<noteq> tsConfig"
      by (metis fst_conv sum.distinct(1))
    with Cons.prems(1) have "tsConfig \<in> set files" by simp
    with Cons.IH [of li1] Cons.prems(2) obtain e where "fst (collectAliases cwd fs root li1 files) = Inl e"
      by blast
    with step Inr show ?thesis by (auto split: prod.splits sum.splits)
  qed
qed

text \<open>
  Claim C7. The working directory is absolute, as \<open>process.cwd()\<close> always is. When
  nothing exists at the resolved path, the reader returns undefined and throws nothing.
  When a file is there whose text \<open>JSON.parse\<close> rejects, the reader throws. That
  aborts \<open>configResolved\<close>: whether the file is one of the discovered files the
  filter keeps, or a file named in the \<open>extends\<close> of such a file, the call ends with
  an error and leaves \<open>resolvedAliases\<close> as it was, so no rule is produced.
\<close>

theorem reader_outcomes:
  assumes "isAbsolute cwd"
  shows "(fs (resolve cwd [p]) = None \<longrightarrow> resolveTsConfigPath cwd fs p = Inr None)
     \<and> (fs (resolve cwd [p]) = Some (File None) \<longrightarrow> resolveTsConfigPath cwd fs p = Inl SyntaxError)
     \<and> (p \<in> set (fg (resolve cwd [root, ''**/tsconfig(.*)?.json'']) [''**/node_modules/**''])
          \<and> tsConfigFilter fg cwd root p \<and> fs (resolve cwd [p]) = Some (File None) \<longrightarrow>
          (\<exists>e. configResolved_first fg cwd fs (Some root) li st = (Some e, st)))
     \<and> (p \<in> set (fg (resolve cwd [root, ''/tsconfig(.*)?.json'']) [])
          \<and> tsConfigFilter fg cwd root p \<and> fs (resolve cwd [p]) = Some (File None) \<longrightarrow>
          (\<exists>e. configResolved_probe fg cwd fs (Some root) li st = (Some e, st)))
     \<and> (p \<in> set (fg (resolve cwd [root, ''**/tsconfig(.*)?.json'']) [''**/node_modules/**''])
          \<and> tsConfigFilter fg cwd root p \<and> resolveTsConfigPath cwd fs p = Inr (Some c)
          \<and> cfg_extends c = Some es \<and> x \<in> set es
          \<and> fs (resolve cwd [extendsTarget cwd root x]) = Some (File None) \<longrightarrow>
          (\<exists>e. configResolved_first fg cwd fs (Some root) li st = (Some e, st)))"
proof -
  have 1: "fs (resolve cwd [p]) = None \<longrightarrow> resolveTsConfigPath cwd fs p = Inr None"
    using assms reader_missing by blast
  have 2: "fs (resolve cwd [p]) = Some (File None) \<longrightarrow> resolveTsConfigPath cwd fs p = Inl SyntaxError"
    using assms reader_unparseable by blast
  have abort: "\<exists>e. fst (collectAliases cwd fs root li files) = Inl e"
    if "p \<in> set files" and "fs (resolve cwd [p]) = Some (File None)" for files
  proof -
    have "resolveTsConfigPath cwd fs p = Inl SyntaxError"
      using assms that(2) by (rule reader_unparseable)
    then have "\<forall>li'. \<exists>e. fst (getRecursivePathsFromTsConfig cwd fs root li' p) = Inl e"
      using walker_reader_error by blast
    with that(1) show ?thesis by (rule collectAliases_error)
  qed
  have 3: "p \<in> set (fg (resolve cwd [root, ''**/tsconfig(.*)?.json'']) [''**/node_modules/**''])
          \<and> tsConfigFilter fg cwd root p \<and> fs (resolve cwd [p]) = Some (File None) \<longrightarrow>
          (\<exists>e. configResolved_first fg cwd fs (Some root) li st = (Some e, st))"
  proof
    assume h: "p \<in> set (fg (resolve cwd [root, ''**/tsconfig(.*)?.json'']) [''**/node_modules/**''])
          \<and> tsConfigFilter fg cwd root p \<and> fs (resolve cwd [p]) = Some (File None)"
    let ?files = "filter (tsConfigFilter fg cwd root)
                    (fg (resolve cwd [root, ''**/tsconfig(.*)?.json'']) [''**/node_modules/**''])"
    from h have "p \<in> set ?files" by simp
    with h obtain e where "fst (collectAliases cwd fs root li ?files) = Inl e"
      using abort by blast
    then show "\<exists>e. configResolved_first fg cwd fs (Some root) li st = (Some e, st)"
      by (simp add: configResolved_first_def)
  qed
  have 4: "p \<in> set (fg (resolve cwd [root, ''/tsconfig(.*)?.json'']) [])
          \<and> tsConfigFilter fg cwd root p \<and> fs (resolve cwd [p]) = Some (File None) \<longrightarrow>
          (\<exists>e. configResolved_probe fg cwd fs (Some root) li st = (Some e, st))"
  proof
    assume h: "p \<in> set (fg (resolve cwd [root, ''/tsconfig(.*)?.json'']) [])
          \<and> tsConfigFilter fg cwd root p \<and> fs (resolve cwd [p]) = Some (File None)"
    let ?files = "filter (tsConfigFilter fg cwd root)
                    (fg (resolve cwd [root, ''/tsconfig(.*)?.json'']) [])"
    from h have "p \<in> set ?files" by simp
    with h obtain e where "fst (collectAliases cwd fs root li ?files) = Inl e"
      using abort by blast
    then show "\<exists>e. configResolved_probe fg cwd fs (Some root) li st = (Some e, st)"
      by (simp add: configResolved_probe_def)
  qed
  have 5: "p \<in> set (fg (resolve cwd [root, ''**/tsconfig(.*)?.json'']) [''**/node_modules/**''])
          \<and> tsConfigFilter fg cwd root p \<and> resolveTsConfigPath cwd fs p = Inr (Some c)
          \<and> cfg_extends c = Some es \<and> x \<in> set es
          \<and> fs (resolve cwd [extendsTarget cwd root x]) = Some (File None) \<longrightarrow>
          (\<exists>e. configResolved_first fg cwd fs (Some root) li st = (Some e, st))"
  proof
    assume h: "p \<in> set (fg (resolve cwd [root, ''**/tsconfig(.*)?.json'']) [''**/node_modules/**''])
          \<and> tsConfigFilter fg cwd root p \<and> resolveTsConfigPath cwd fs p = Inr (Some c)
          \<and> cfg_extends c = Some es \<and> x \<in> set es
          \<and> fs (resolve cwd [extendsTarget cwd root x]) = Some (File None)"
    let ?files = "filter (tsConfigFilter fg cwd root)
                    (fg (resolve cwd [root, ''**/tsconfig(.*)?.json'']) [''**/node_modules/**''])"
    from h have "resolveTsConfigPath cwd fs (extendsTarget cwd root x) = Inl SyntaxError"
      using reader_unparseable [OF assms] by blast
    with h have "\<forall>li'. \<exists>e. fst (getRecursivePathsFromTsConfig cwd fs root li' p) = Inl e"
      using walker_extends_error by blast
    moreover from h have "p \<in> set ?files" by simp
    ultimately obtain e where "fst (collectAliases cwd fs root li ?files) = Inl e"
      using collectAliases_error by blast
    then show "\<exists>e. configResolved_first fg cwd fs (Some root) li st = (Some e, st)"
      by (simp add: configResolved_first_def)
  qed
  show ?thesis
    by (intro conjI) (rule 1 2 3 4 5)+
qed


theorem reader_outcomes_witness:
  "resolveTsConfigPath ''/proj'' (map_of [(''/proj/tsconfig.json'', File None)]) ''missing.json''
     = Inr None
   \<and> resolveTsConfigPath ''/proj'' (map_of [(''/proj/tsconfig.json'', File None)]) ''tsconfig.json''
     = Inl SyntaxError
   \<and> (\<exists>e. configResolved_first
          (\<lambda>pat ig. if pat = ''/proj/**/tsconfig(.*)?.json'' then [''/proj/tsconfig.json''] else [])
          ''/proj'' (map_of [(''/proj/tsconfig.json'', File None)]) (Some ''/proj'') 0
          \<lparr>resolvedAliases = None\<rparr> = (Some e, \<lparr>resolvedAliases = None\<rparr>))
   \<and> (\<exists>e. configResolved_probe
          (\<lambda>pat ig. if pat = ''/tsconfig(.*)?.json'' then [''/tsconfig.json''] else [])
          ''/proj'' (map_of [(''/tsconfig.json'', File None)]) (Some ''/proj'') 0
          \<lparr>resolvedAliases = None\<rparr> = (Some e, \<lparr>resolvedAliases = None\<rparr>))
   \<and> (\<exists>e. configResolved_first
          (\<lambda>pat ig. if pat = ''/proj/**/tsconfig(.*)?.json'' then [''/proj/tsconfig.json''] else [])
          ''/proj''
          (map_of [(''/proj/tsconfig.json'',
                     File (Some \<lparr>cfg_extends = Some [''./base.json''], cfg_baseUrl = None,
                                  cfg_paths = None\<rparr>)),
                   (''/proj/base.json'', File None)])
          (Some ''/proj'') 0 \<lparr>resolvedAliases = None\<rparr> = (Some e, \<lparr>resolvedAliases = None\<rparr>))"
proof -
  let ?fs = "map_of [(''/proj/tsconfig.json'', File None)]"
  let ?fg = "\<lambda>(pat::string) (ig::string list).
               if pat = ''/proj/**/tsconfig(.*)?.json'' then [''/proj/tsconfig.json''] else []"
  let ?fs' = "map_of [(''/tsconfig.json'', File None)]"
  let ?fg' = "\<lambda>(pat::string) (ig::string list).
               if pat = ''/tsconfig(.*)?.json'' then [''/tsconfig.json''] else []"
  let ?c = "\<lparr>cfg_extends = Some [''./base.json''], cfg_baseUrl = None, cfg_paths = None\<rparr>"
  let ?fs2 = "map_of [(''/proj/tsconfig.json'', File (Some ?c)), (''/proj/base.json'', File None)]"
  let ?st = "\<lparr>resolvedAliases = None\<rparr>"
  have abs: "isAbsolute ''/proj''" by (simp add: isAbsolute_def)
  have h1: "?fs (resolve ''/proj'' [''missing.json'']) = None" by code_simp
  have h2: "?fs (resolve ''/proj'' [''tsconfig.json'']) = Some (File None)" by code_simp
  have h3: "''/proj/tsconfig.json''
              \<in> set (?fg (resolve ''/proj'' [''/proj'', ''**/tsconfig(.*)?.json'']) [''**/node_modules/**''])
            \<and> tsConfigFilter ?fg ''/proj'' ''/proj'' ''/proj/tsconfig.json''
            \<and> ?fs (resolve ''/proj'' [''/proj/tsconfig.json'']) = Some (File None)"
    by code_simp
  have h4: "''/tsconfig.json'' \<in> set (?fg' (resolve ''/proj'' [''/proj'', ''/tsconfig(.*)?.json'']) [])
            \<and> tsConfigFilter ?fg' ''/proj'' ''/proj'' ''/tsconfig.json''
            \<and> ?fs' (resolve ''/proj'' [''/tsconfig.json'']) = Some (File None)"
    by code_simp
  have h5: "''/proj/tsconfig.json''
              \<in> set (?fg (resolve ''/proj'' [''/proj'', ''**/tsconfig(.*)?.json'']) [''**/node_modules/**''])
            \<and> tsConfigFilter ?fg ''/proj'' ''/proj'' ''/proj/tsconfig.json''
            \<and> resolveTsConfigPath ''/proj'' ?fs2 ''/proj/tsconfig.json'' = Inr (Some ?c)
            \<and> cfg_extends ?c = Some [''./base.json''] \<and> ''./base.json'' \<in> set [''./base.json'']
            \<and> ?fs2 (resolve ''/proj'' [extendsTarget ''/proj'' ''/proj'' ''./base.json'']) = Some (File None)"
    by code_simp
  have 1: "resolveTsConfigPath ''/proj'' ?fs ''missing.json'' = Inr None"
    using reader_outcomes [OF abs, of ?fs "''missing.json''", THEN conjunct1] h1 by (rule mp)
  have 2: "resolveTsConfigPath ''/proj'' ?fs ''tsconfig.json'' = Inl SyntaxError"
    using reader_outcomes [OF abs, of ?fs "''tsconfig.json''", THEN conjunct2, THEN conjunct1] h2
    by (rule mp)
  have 3: "\<exists>e. configResolved_first ?fg ''/proj'' ?fs (Some ''/proj'') 0 ?st = (Some e, ?st)"
    using reader_outcomes [OF abs, of ?fs "''/proj/tsconfig.json''" ?fg "''/proj''" 0 ?st,
            THEN conjunct2, THEN conjunct2, THEN conjunct1] h3
    by (rule mp)
  have 4: "\<exists>e. configResolved_probe ?fg' ''/proj'' ?fs' (Some ''/proj'') 0 ?st = (Some e, ?st)"
    using reader_outcomes [OF abs, of ?fs' "''/tsconfig.json''" ?fg' "''/proj''" 0 ?st,
            THEN conjunct2, THEN conjunct2, THEN conjunct2, THEN conjunct1] h4
    by (rule mp)
  have 5: "\<exists>e. configResolved_first ?fg ''/proj'' ?fs2 (Some ''/proj'') 0 ?st = (Some e, ?st)"
    using reader_outcomes [OF abs, of ?fs2 "''/proj/tsconfig.json''" ?fg "''/proj''" 0 ?st
            ?c "[''./base.json'']" "''./base.json''",
            THEN conjunct2, THEN conjunct2, THEN conjunct2, THEN conjunct2] h5
    by (rule mp)
  show ?thesis
    by (intro conjI) (rule 1 2 3 4 5)+
qed

section \<open>Discovery and nested projects\<close>

text \<open>
  Claim C6. The claim asks that a configuration file be dropped when the directory it
  sits in holds a \<open>vite.config.js\<close> or \<open>vite.config.ts\<close> and is not the root. The
  filter takes \<open>dirname\<close> twice: it globs for the build configuration in the parent
  of the directory that holds the file. For \<open>/proj/packages/app/tsconfig.json\<close> and
  the root \<open>/proj\<close> the verdict rests on \<open>/proj/packages/vite.config.{js,ts}\<close>
  alone; a \<open>vite.config.ts\<close> inside \<open>/proj/packages/app\<close> is never looked at, and
  the file is kept. With both configuration files found by the glob and a
  \<open>vite.config.ts\<close> in \<open>/proj\<close> and in \<open>/proj/packages/app\<close>, the rule list of
  the root build holds the alias \<open>@nested\<close> of the nested project.
\<close>

theorem nested_project_filter:
  "tsConfigFilter fg cwd root p
     = (fg (resolve cwd [dirname (dirname p), ''vite.config.{js,ts}'']) [] = [] \<or> dirname p = root)
   \<and> dirname ''/proj/packages/app/tsconfig.json'' = ''/proj/packages/app''
   \<and> dirname (dirname ''/proj/packages/app/tsconfig.json'') = ''/proj/packages''
   \<and> tsConfigFilter fg cwd ''/proj'' ''/proj/packages/app/tsconfig.json''
     = (fg ''/proj/packages/vite.config.{js,ts}'' [] = [])
   \<and> configResolved_first
       (\<lambda>pat ig.
          if pat = ''/proj/**/tsconfig(.*)?.json''
            then [''/proj/tsconfig.json'', ''/proj/packages/app/tsconfig.json'']
          else if pat = ''/proj/packages/app/vite.config.{js,ts}''
            then [''/proj/packages/app/vite.config.ts'']
          else if pat = ''/proj/vite.config.{js,ts}'' then [''/proj/vite.config.ts'']
          else [])
       ''/proj''
       (map_of
          [(''/proj/vite.config.ts'', File None),
           (''/proj/tsconfig.json'',
              File (Some \<lparr>cfg_extends = None, cfg_baseUrl = Some ''.'',
                           cfg_paths = Some [(''@root/*'', [''src/*''])]\<rparr>)),
           (''/proj/packages/app/vite.config.ts'', File None),
           (''/proj/packages/app/tsconfig.json'',
              File (Some \<lparr>cfg_extends = None, cfg_baseUrl = Some ''.'',
                           cfg_paths = Some [(''@nested/*'', [''lib/*''])]\<rparr>))])
       (Some ''/proj'') 0 \<lparr>resolvedAliases = None\<rparr>
     = (None, \<lparr>resolvedAliases = Some
          [\<lparr>findPattern = ''@root'', replacement = ''/proj/src''\<rparr>,
           \<lparr>findPattern = ''@nested'', replacement = ''/proj/lib''\<rparr>]\<rparr>)"
proof -
  have 1: "tsConfigFilter fg cwd root p
     = (fg (resolve cwd [dirname (dirname p), ''vite.config.{js,ts}'']) [] = [] \<or> dirname p = root)"
    for root p
    by (auto simp: tsConfigFilter_def Let_def)
  have 2: "dirname ''/proj/packages/app/tsconfig.json'' = ''/proj/packages/app''"
    by code_simp
  have 3: "dirname (dirname ''/proj/packages/app/tsconfig.json'') = ''/proj/packages''"
    by code_simp
  have d2: "dirname ''/proj/packages/app'' = ''/proj/packages''"
    by code_simp
  have r: "resolve cwd [''/proj/packages'', ''vite.config.{js,ts}'']
             = ''/proj/packages/vite.config.{js,ts}''"
    by (simp add: resolve_def isAbsolute_def normalizeString_def)
  have 4: "tsConfigFilter fg cwd ''/proj'' ''/proj/packages/app/tsconfig.json''
     = (fg ''/proj/packages/vite.config.{js,ts}'' [] = [])"
    by (simp add: 1 2 d2 r)
  have 5: "configResolved_first
       (\<lambda>pat ig.
          if pat = ''/proj/**/tsconfig(.*)?.json''
            then [''/proj/tsconfig.json'', ''/proj/packages/app/tsconfig.json'']
          else if pat = ''/proj/packages/app/vite.config.{js,ts}''
            then [''/proj/packages/app/vite.config.ts'']
          else if pat = ''/proj/vite.config.{js,ts}'' then [''/proj/vite.config.ts'']
          else [])
       ''/proj''
       (map_of
          [(''/proj/vite.config.ts'', File None),
           (''/proj/tsconfig.json'',
              File (Some \<lparr>cfg_extends = None, cfg_baseUrl = Some ''.'',
                           cfg_paths = Some [(''@root/*'', [''src/*''])]\<rparr>)),
           (''/proj/packages/app/vite.config.ts'', File None),
           (''/proj/packages/app/tsconfig.json'',
              File (Some \<lparr>cfg_extends = None, cfg_baseUrl = Some ''.'',
                           cfg_paths = Some [(''@nested/*'', [''lib/*''])]\<rparr>))])
       (Some ''/proj'') 0 \<lparr>resolvedAliases = None\<rparr>
     = (None, \<lparr>resolvedAliases = Some
          [\<lparr>findPattern = ''@root'', replacement = ''/proj/src''\<rparr>,
           \<lparr>findPattern = ''@nested'', replacement = ''/proj/lib''\<rparr>]\<rparr>)"
    by code_simp
  show ?thesis
    by (intro conjI) (rule 1 2 3 4 5)+
qed

section \<open>The placeholder in compiled replacements\<close>

lemma token_facts:
  "configDirToken \<noteq> []" "CHR ''/'' \<notin> set configDirToken"
  "configDirToken = CHR ''$'' # ''{configDir}''"
  "\<not> includesStr ''..'' configDirToken" "\<not> includesStr ''.'' configDirToken"
  "\<not> includesStr ''/'' configDirToken" "\<not> includesStr ''./'' configDirToken"
  "\<not> includesStr [] configDirToken"
  by (simp_all add: configDirToken_def)

lemma prefix_slash:
  "CHR ''/'' \<notin> set tok \<Longrightarrow> prefix tok (a @ CHR ''/'' # b) \<longleftrightarrow> prefix tok a"
proof
  assume ns: "CHR ''/'' \<notin> set tok" and "prefix tok (a @ CHR ''/'' # b)"
  then consider "prefix tok a" | z where "tok = a @ z" "prefix z (CHR ''/'' # b)"
    by (auto simp: prefix_append)
  then show "prefix tok a"
  proof cases
    case 1
    then show ?thesis .
  next
    case 2
    with ns have "z = []" by (cases z) auto
    with 2 show ?thesis by simp
  qed
next
  assume "prefix tok a"
  then show "prefix tok (a @ CHR ''/'' # b)" by (rule prefix_prefix)
qed

lemma includesStr_slash:
  assumes "tok \<noteq> []" and "CHR ''/'' \<notin> set tok"
  shows "includesStr (a @ CHR ''/'' # b) tok \<longleftrightarrow> includesStr a tok \<or> includesStr b tok"
proof (induction a)
  case Nil
  have "\<not> prefix tok (CHR ''/'' # b)"
    using assms by (cases tok) auto
  with assms(1) show ?case by simp
next
  case (Cons c a)
  have "prefix tok ((c # a) @ CHR ''/'' # b) \<longleftrightarrow> prefix tok (c # a)"
    using assms(2) by (rule prefix_slash)
  with Cons show ?case by auto
qed

lemma includesStr_joinSlash:
  assumes "tok \<noteq> []" and "CHR ''/'' \<notin> set tok"
  shows "includesStr (joinSlash ns) tok \<longleftrightarrow> (\<exists>n\<in>set ns. includesStr n tok)"
proof (induction ns rule: joinSlash.induct)
  case 1
  from assms(1) show ?case by simp
next
  case (2 s)
  show ?case by simp
next
  case (3 s t ts)
  then show ?case using includesStr_slash [OF assms] by simp
qed

lemma includesStr_segments:
  assumes "tok \<noteq> []" and "CHR ''/'' \<notin> set tok"
  shows "(\<exists>seg\<in>set (segments s). includesStr seg tok) \<longleftrightarrow> includesStr s tok"
  using includesStr_joinSlash [OF assms, of "segments s"] by (simp add: joinSlash_segments)

lemma normalizeSegments_subset:
  "x \<in> set (normalizeSegments allow st segs) \<Longrightarrow> x \<in> set st \<or> x \<in> set segs \<or> x = ''..''"
proof (induction segs arbitrary: st)
  case Nil
  then show ?case by simp
next
  case (Cons seg segs)
  note IH = Cons.IH and mem = Cons.prems
  consider "seg = [] \<or> seg = ''.''" | "seg = ''..''" "st = []"
    | seg0 st' where "seg = ''..''" "st = seg0 # st'"
    | "seg \<noteq> []" "seg \<noteq> ''.''" "seg \<noteq> ''..''"
    by (cases st) auto
  then show ?case
  proof cases
    case 1
    with mem have "x \<in> set (normalizeSegments allow st segs)" by auto
    from IH [OF this] show ?thesis by auto
  next
    case 2
    with mem have "x \<in> set (normalizeSegments allow (if allow then [''..''] else []) segs)"
      by (cases allow) simp_all
    from IH [OF this] show ?thesis by (auto split: if_splits)
  next
    case 3
    show ?thesis
    proof (cases "seg0 \<noteq> ''..''")
      case True
      with 3 mem have "x \<in> set (normalizeSegments allow st' segs)" by simp
      from IH [OF this] 3 show ?thesis by auto
    next
      case False
      with 3 mem have "x \<in> set (normalizeSegments allow (if allow then ''..'' # st else st) segs)"
        by (cases allow) simp_all
      from IH [OF this] show ?thesis by (auto split: if_splits)
    qed
  next
    case 4
    with mem have "x \<in> set (normalizeSegments allow (seg # st) segs)" by simp
    from IH [OF this] show ?thesis by auto
  qed
qed

lemma normalizeString_token:
  assumes "includesStr (normalizeString path allow) configDirToken"
  shows "includesStr path configDirToken"
proof -
  from assms obtain n where n: "n \<in> set (normalizeSegments allow [] (segments path))"
    "includesStr n configDirToken"
    using includesStr_joinSlash [OF token_facts(1,2)] by (auto simp: normalizeString_def)
  with normalizeSegments_subset [of n allow "[]" "segments path"] token_facts(4)
  have "n \<in> set (segments path)" by auto
  with n(2) show ?thesis using includesStr_segments [OF token_facts(1,2)] by blast
qed

lemma resolveLoop_token:
  "includesStr (fst (resolveLoop ps acc)) configDirToken \<Longrightarrow>
     includesStr acc configDirToken \<or> (\<exists>p\<in>set ps. includesStr p configDirToken)"
proof (induction ps arbitrary: acc)
  case Nil
  then show ?case by simp
next
  case (Cons p ps)
  show ?case
  proof (cases "p = []")
    case True
    with Cons show ?thesis by auto
  next
    case False
    have split: "includesStr (p @ CHR ''/'' # acc) configDirToken
                   \<longleftrightarrow> includesStr p configDirToken \<or> includesStr acc configDirToken"
      by (rule includesStr_slash [OF token_facts(1,2)])
    show ?thesis
    proof (cases "isAbsolute p")
      case True
      with False Cons.prems split show ?thesis by auto
    next
      case abs: False
      with False Cons.prems have "includesStr (fst (resolveLoop ps (p @ CHR ''/'' # acc))) configDirToken"
        by simp
      from Cons.IH [OF this] split show ?thesis by auto
    qed
  qed
qed

lemma resolve_token:
  assumes "includesStr (resolve cwd args) configDirToken"
  shows "includesStr cwd configDirToken \<or> (\<exists>a\<in>set args. includesStr a configDirToken)"
proof -
  obtain path ab where r: "resolveLoop (rev args @ [cwd]) [] = (path, ab)"
    by (cases "resolveLoop (rev args @ [cwd]) []")
  let ?n = "normalizeString path (\<not> ab)"
  from assms r have "includesStr (CHR ''/'' # ?n) configDirToken \<or> includesStr ?n configDirToken"
    using token_facts(5) by (auto simp: resolve_def Let_def simp del: includesStr.simps split: if_splits)
  then have "includesStr ?n configDirToken"
    using includesStr_slash [OF token_facts(1,2), of "[]" ?n] token_facts(8)
    by (auto simp del: includesStr.simps)
  then have "includesStr path configDirToken" by (rule normalizeString_token)
  with r resolveLoop_token [of "rev args @ [cwd]" "[]"] token_facts(8) show ?thesis by auto
qed

lemma normalize_token:
  assumes "includesStr (normalize path) configDirToken"
  shows "includesStr path configDirToken"
proof -
  let ?n = "normalizeString path (\<not> isAbsolute path)"
  have sl: "includesStr (CHR ''/'' # x) configDirToken \<longleftrightarrow> includesStr x configDirToken" for x
    using includesStr_slash [OF token_facts(1,2), of "[]" x] token_facts(8)
    by (auto simp del: includesStr.simps)
  have sr: "includesStr (x @ ''/'') configDirToken \<longleftrightarrow> includesStr x configDirToken" for x
    using includesStr_slash [OF token_facts(1,2), of x "[]"] token_facts(8)
    by (auto simp del: includesStr.simps)
  from assms have "includesStr ?n configDirToken"
    using token_facts(5,6,7)
    by (auto simp: normalize_def Let_def sl sr simp del: includesStr.simps split: if_splits)
  then show ?thesis by (rule normalizeString_token)
qed

lemma join_token:
  assumes "includesStr (join args) configDirToken"
  shows "\<exists>a\<in>set args. includesStr a configDirToken"
proof (cases "filter (\<lambda>a. a \<noteq> []) args")
  case Nil
  with assms token_facts(5) show ?thesis by (simp add: join_def)
next
  case (Cons j js)
  with assms have "includesStr (normalize (joinSlash (j # js))) configDirToken"
    by (simp add: join_def)
  then have "includesStr (joinSlash (j # js)) configDirToken" by (rule normalize_token)
  then obtain n where "n \<in> set (j # js)" "includesStr n configDirToken"
    using includesStr_joinSlash [OF token_facts(1,2)] by blast
  moreover have "set (j # js) \<subseteq> set args"
    using Cons by (metis filter_is_subset)
  ultimately show ?thesis by blast
qed


lemma getSubstitution_plain:
  "CHR ''$'' \<notin> set t \<Longrightarrow> getSubstitution m b a t = t"
  by (induction m b a t rule: getSubstitution.induct) auto

lemma no_dollar_no_token: "CHR ''$'' \<notin> set s \<Longrightarrow> \<not> includesStr s configDirToken"
  by (auto simp: includesStr_iff configDirToken_def)

lemma includesStr_behind:
  "tok \<noteq> [] \<Longrightarrow> hd tok \<notin> set r \<Longrightarrow> includesStr (r @ x) tok \<longleftrightarrow> includesStr x tok"
proof (induction r)
  case Nil
  show ?case by simp
next
  case (Cons c r)
  then have "\<not> prefix tok (c # r @ x)" by (cases tok) auto
  with Cons show ?case by simp
qed

lemma replaceAllFrom_prefix:
  assumes "isAbsolute root" and "CHR ''$'' \<notin> set root"
  shows "CHR ''/'' \<notin> set p \<Longrightarrow> prefix p (replaceAllFrom bef root s) \<Longrightarrow> prefix p s"
proof (induction p arbitrary: s bef)
  case Nil
  show ?case by simp
next
  case (Cons a p)
  from Cons.prems(1) have a: "a \<noteq> CHR ''/''" and p: "CHR ''/'' \<notin> set p" by auto
  from assms(1) obtain root' where root: "root = CHR ''/'' # root'"
    by (cases root) (auto simp: isAbsolute_def)
  show ?case
  proof (cases s)
    case Nil
    with Cons.prems show ?thesis by simp
  next
    case s: (Cons c cs)
    show ?thesis
    proof (cases "prefix configDirToken (c # cs)")
      case True
      with s Cons.prems(2)
      have "prefix (a # p) (root @ replaceAllFrom (bef @ configDirToken) root (drop 11 cs))"
        by (simp add: getSubstitution_plain [OF assms(2)])
      with root a show ?thesis by simp
    next
      case False
      with s Cons.prems(2) have "prefix (a # p) (c # replaceAllFrom (bef @ [c]) root cs)"
        by simp
      then have "a = c" and "prefix p (replaceAllFrom (bef @ [c]) root cs)" by simp_all
      with Cons.IH [OF p, of "bef @ [c]" cs] s show ?thesis by simp
    qed
  qed
qed

lemma replaceAllFrom_token_free:
  assumes "isAbsolute root" and "CHR ''$'' \<notin> set root"
  shows "\<not> includesStr (replaceAllFrom bef root s) configDirToken"
proof (induction s arbitrary: bef rule: length_induct)
  case (1 s)
  show ?case
  proof (cases s)
    case Nil
    with token_facts(1) show ?thesis by simp
  next
    case (Cons c cs)
    show ?thesis
    proof (cases "prefix configDirToken (c # cs)")
      case True
      have "length (drop 11 cs) < length s" using Cons by simp
      with 1 have "\<not> includesStr (replaceAllFrom (bef @ configDirToken) root (drop 11 cs)) configDirToken"
        by blast
      moreover from assms(2) have "hd configDirToken \<notin> set root"
        by (simp add: token_facts(3))
      ultimately have "\<not> includesStr (root @ replaceAllFrom (bef @ configDirToken) root (drop 11 cs))
                          configDirToken"
        using includesStr_behind [OF token_facts(1)] by simp
      moreover from True have "replaceAllFrom bef root (c # cs)
          = root @ replaceAllFrom (bef @ configDirToken) root (drop 11 cs)"
        by (simp add: getSubstitution_plain [OF assms(2)])
      ultimately show ?thesis unfolding Cons by metis
    next
      case False
      have "length cs < length s" using Cons by simp
      with 1 have ih: "\<not> includesStr (replaceAllFrom (bef @ [c]) root cs) configDirToken"
        by blast
      from False have eq: "replaceAllFrom bef root (c # cs) = c # replaceAllFrom (bef @ [c]) root cs"
        by simp
      have "\<not> prefix configDirToken (c # replaceAllFrom (bef @ [c]) root cs)"
      proof
        assume "prefix configDirToken (c # replaceAllFrom (bef @ [c]) root cs)"
        then have c: "c = CHR ''$''" and "prefix ''{configDir}'' (replaceAllFrom (bef @ [c]) root cs)"
          by (simp_all add: token_facts(3))
        then have "prefix ''{configDir}'' cs"
          using replaceAllFrom_prefix [OF assms, of "''{configDir}''" "bef @ [c]" cs] by simp
        with c have "prefix configDirToken (c # cs)" by (simp add: token_facts(3))
        with False show False ..
      qed
      with ih eq show ?thesis unfolding Cons by simp
    qed
  qed
qed

lemma replaceConfigDir_token_free:
  "isAbsolute root \<Longrightarrow> CHR ''$'' \<notin> set root \<Longrightarrow>
     \<not> includesStr (replaceConfigDir s root) configDirToken"
  by (simp add: replaceConfigDir_def replaceAllFrom_token_free)


lemma baseUrl_probe_token_free:
  assumes "isAbsolute root" and "CHR ''$'' \<notin> set root"
    and "\<forall>s. b = Some s \<longrightarrow> startsWith s configDirToken \<or> \<not> includesStr s configDirToken"
  shows "\<not> includesStr (baseUrl_probe root b) configDirToken"
  using assms replaceConfigDir_token_free [OF assms(1,2)] no_dollar_no_token [OF assms(2)]
  by (auto simp: baseUrl_probe_def split: option.splits)

lemma resolveMap_token_free:
  assumes "\<not> includesStr cwd configDirToken" and "\<not> includesStr base configDirToken"
    and "\<not> reformsPlaceholder (removeSuffixPatternFromTsAlias m)"
  shows "\<not> includesStr (resolveMap cwd base m) configDirToken"
proof
  assume "includesStr (resolveMap cwd base m) configDirToken"
  then consider "includesStr (resolve cwd [base]) configDirToken"
    | "includesStr (resolve cwd [base, replaceConfigDir (removeSuffixPatternFromTsAlias m) []])
         configDirToken"
    by (auto simp: resolveMap_def Let_def split: if_splits)
  then show False
  proof cases
    case 1
    from resolve_token [OF this] assms(1,2) show False by simp
  next
    case 2
    from resolve_token [OF this] assms show False by (simp add: reformsPlaceholder_def)
  qed
qed

lemma aliasEntry_probe_token_free:
  assumes "isAbsolute root" and "CHR ''$'' \<notin> set root" and "\<not> includesStr cwd configDirToken"
    and "\<forall>s. b = Some s \<longrightarrow> startsWith s configDirToken \<or> \<not> includesStr s configDirToken"
    and "\<forall>m\<in>set remaps. \<not> reformsPlaceholder (removeSuffixPatternFromTsAlias m)"
    and "r \<in> set (aliasEntry_probe cwd fs root b (pattern, remaps))"
  shows "\<not> includesStr (replacement r) configDirToken"
proof -
  have base: "\<not> includesStr (baseUrl_probe root b) configDirToken"
    using assms(1,2,4) by (rule baseUrl_probe_token_free)
  from aliasEntry_probe_first_existing [OF assms(6)] obtain i where
    i: "i < length remaps" "replacement r = resolveMap cwd (baseUrl_probe root b) (remaps ! i)"
    by blast
  with assms(5) have "\<not> reformsPlaceholder (removeSuffixPatternFromTsAlias (remaps ! i))"
    by simp
  with assms(3) base i(2) show ?thesis by (simp add: resolveMap_token_free)
qed

lemma replacement_first_parts:
  "\<exists>base template. replacement_first cwd root b target
       = resolve cwd [join [base, replaceConfigDir target template]]
     \<and> (template = [] \<or> template = root)
     \<and> (base = root \<or> (\<exists>s. base = replaceConfigDir s root))"
  by (auto simp: replacement_first_def Let_def split: option.splits)

lemma replacement_first_token_free:
  assumes "isAbsolute root" and "CHR ''$'' \<notin> set root" and "\<not> includesStr cwd configDirToken"
    and "\<not> reformsPlaceholder target"
  shows "\<not> includesStr (replacement_first cwd root b target) configDirToken"
proof
  assume inc: "includesStr (replacement_first cwd root b target) configDirToken"
  have sub: "\<not> includesStr (replaceConfigDir s root) configDirToken" for s
    using assms(1,2) by (rule replaceConfigDir_token_free)
  have rt: "\<not> includesStr root configDirToken"
    using assms(2) by (rule no_dollar_no_token)
  from assms(4) have tg: "\<not> includesStr (replaceConfigDir target []) configDirToken"
    by (simp add: reformsPlaceholder_def)
  from replacement_first_parts [of cwd root b target] obtain base template where
    bt: "replacement_first cwd root b target = resolve cwd [join [base, replaceConfigDir target template]]"
      "template = [] \<or> template = root"
      "base = root \<or> (\<exists>s. base = replaceConfigDir s root)"
    by blast
  with inc have "includesStr (resolve cwd [join [base, replaceConfigDir target template]]) configDirToken"
    by simp
  from resolve_token [OF this] assms(3)
  have "includesStr (join [base, replaceConfigDir target template]) configDirToken" by simp
  from join_token [OF this]
  have "includesStr base configDirToken \<or> includesStr (replaceConfigDir target template) configDirToken"
    by simp
  with bt(2,3) sub rt tg show False by auto
qed


lemma aliasEntry_first_token_free:
  assumes "isAbsolute root" and "CHR ''$'' \<notin> set root" and "\<not> includesStr cwd configDirToken"
    and "\<forall>m\<in>set remaps. \<not> reformsPlaceholder (removeSuffixPatternFromTsAlias m)"
    and "aliasEntry_first cwd root b (pattern, remaps) = Inr rs" and "r \<in> set rs"
  shows "\<not> includesStr (replacement r) configDirToken"
proof (cases remaps)
  case Nil
  with assms(5) show ?thesis by (simp add: aliasEntry_first_def)
next
  case (Cons t ts)
  with assms(5,6) have t: "endsWith t tsAliasSuffix"
    and r: "replacement r = replacement_first cwd root b (sliceEnd t (length tsAliasSuffix))"
    using aliasEntry_first_replacement [of cwd root b pattern t ts rs r] by simp_all
  from t have "removeSuffixPatternFromTsAlias t = sliceEnd t (length tsAliasSuffix)"
    by (simp add: removeSuffixPatternFromTsAlias_def)
  with assms(4) Cons have "\<not> reformsPlaceholder (sliceEnd t (length tsAliasSuffix))"
    by simp
  with assms(1,2,3) r show ?thesis by (simp add: replacement_first_token_free)
qed

lemma resolveAliases_probe_member:
  "r \<in> set (resolveAliases_probe cwd fs root aliases) \<Longrightarrow>
     \<exists>a\<in>set aliases. \<exists>e\<in>set (paths a). r \<in> set (aliasEntry_probe cwd fs root (baseUrl a) e)"
  by (auto simp: resolveAliases_probe_def)

lemma entriesLoop_first_member:
  "entriesLoop_first cwd root b entries = Inr rs \<Longrightarrow> r \<in> set rs \<Longrightarrow>
     \<exists>e\<in>set entries. \<exists>rs'. aliasEntry_first cwd root b e = Inr rs' \<and> r \<in> set rs'"
proof (induction entries arbitrary: rs)
  case Nil
  then show ?case by simp
next
  case (Cons e entries)
  from Cons.prems(1) obtain rs1 rs2 where
    parts: "aliasEntry_first cwd root b e = Inr rs1" "entriesLoop_first cwd root b entries = Inr rs2"
      "rs = rs1 @ rs2"
    by (auto split: sum.splits)
  with Cons.prems(2) consider "r \<in> set rs1" | "r \<in> set rs2" by auto
  then show ?case
  proof cases
    case 1
    with parts(1) show ?thesis by auto
  next
    case 2
    from Cons.IH [OF parts(2) this] show ?thesis by auto
  qed
qed

lemma resolveAliases_first_member:
  "resolveAliases_first cwd root aliases = Inr rs \<Longrightarrow> r \<in> set rs \<Longrightarrow>
     \<exists>a\<in>set aliases. \<exists>e\<in>set (paths a). \<exists>rs'.
        aliasEntry_first cwd root (baseUrl a) e = Inr rs' \<and> r \<in> set rs'"
proof (induction aliases arbitrary: rs)
  case Nil
  then show ?case by simp
next
  case (Cons a aliases)
  from Cons.prems(1) obtain rs1 rs2 where
    parts: "entriesLoop_first cwd root (baseUrl a) (paths a) = Inr rs1"
      "resolveAliases_first cwd root aliases = Inr rs2" "rs = rs1 @ rs2"
    by (auto split: sum.splits)
  with Cons.prems(2) consider "r \<in> set rs1" | "r \<in> set rs2" by auto
  then show ?case
  proof cases
    case 1
    from entriesLoop_first_member [OF parts(1) this] show ?thesis by auto
  next
    case 2
    from Cons.IH [OF parts(2) this] show ?thesis by auto
  qed
qed

text \<open>
  Claim C3, as amended. Let the project root be an absolute path without a dollar sign,
  let the working directory be free of \<open>${configDir}\<close>, and let no target be such
  that removing its placeholders leaves a placeholder behind. Then no replacement
  compiled by the always-first-priority variant contains \<open>${configDir}\<close>. The
  existence-checking variant substitutes the placeholder of a \<open>baseUrl\<close> only where
  the \<open>baseUrl\<close> starts with it; when every \<open>baseUrl\<close> that contains the
  placeholder starts with it, no replacement compiled by that variant contains
  \<open>${configDir}\<close> either.
\<close>

theorem placeholder_substituted:
  assumes "isAbsolute root" and "CHR ''$'' \<notin> set root" and "\<not> includesStr cwd configDirToken"
    and "\<forall>a\<in>set aliases. \<forall>e\<in>set (paths a). \<forall>m\<in>set (snd e).
           \<not> reformsPlaceholder (removeSuffixPatternFromTsAlias m)"
  shows "((\<forall>a\<in>set aliases. \<forall>s. baseUrl a = Some s \<longrightarrow>
              startsWith s configDirToken \<or> \<not> includesStr s configDirToken) \<longrightarrow>
            (\<forall>r\<in>set (resolveAliases_probe cwd fs root aliases).
               \<not> includesStr (replacement r) configDirToken))
         \<and> (\<forall>rs. resolveAliases_first cwd root aliases = Inr rs \<longrightarrow>
              (\<forall>r\<in>set rs. \<not> includesStr (replacement r) configDirToken))"
proof (intro conjI impI allI ballI)
  fix r
  assume b: "\<forall>a\<in>set aliases. \<forall>s. baseUrl a = Some s \<longrightarrow>
              startsWith s configDirToken \<or> \<not> includesStr s configDirToken"
    and "r \<in> set (resolveAliases_probe cwd fs root aliases)"
  then obtain a e where ae: "a \<in> set aliases" "e \<in> set (paths a)"
    "r \<in> set (aliasEntry_probe cwd fs root (baseUrl a) e)"
    using resolveAliases_probe_member by blast
  obtain pattern remaps where e: "e = (pattern, remaps)" by (cases e)
  from assms(4) ae e have t: "\<forall>m\<in>set remaps. \<not> reformsPlaceholder (removeSuffixPatternFromTsAlias m)"
    by fastforce
  from b ae(1) have "\<forall>s. baseUrl a = Some s \<longrightarrow>
              startsWith s configDirToken \<or> \<not> includesStr s configDirToken" by blast
  from aliasEntry_probe_token_free [OF assms(1,2,3) this t] ae(3) e
  show "\<not> includesStr (replacement r) configDirToken" by blast
next
  fix rs r
  assume "resolveAliases_first cwd root aliases = Inr rs" and "r \<in> set rs"
  then obtain a e rs' where ae: "a \<in> set aliases" "e \<in> set (paths a)"
    "aliasEntry_first cwd root (baseUrl a) e = Inr rs'" "r \<in> set rs'"
    using resolveAliases_first_member by blast
  obtain pattern remaps where e: "e = (pattern, remaps)" by (cases e)
  from assms(4) ae e have t: "\<forall>m\<in>set remaps. \<not> reformsPlaceholder (removeSuffixPatternFromTsAlias m)"
    by fastforce
  from aliasEntry_first_token_free [OF assms(1,2,3) t] ae(3,4) e
  show "\<not> includesStr (replacement r) configDirToken" by blast
qed

text \<open>
  The claim as first stated fails. In the existence-checking variant a \<open>baseUrl\<close>
  with the placeholder in the middle is used as it is, and the directory it names may
  exist. In the always-first-priority variant the target
  \<open>${conf${configDir}igDir}/*\<close> loses its inner placeholder and becomes one.
\<close>

theorem placeholder_substituted_counterexample:
  "resolveAliases_probe ''/proj'' (map_of [(''/proj/a/${configDir}/src'', Directory)]) ''/proj''
     [\<lparr>baseUrl = Some ''a/${configDir}'', paths = [(''@x/*'', [''src/*''])]\<rparr>]
     = [\<lparr>findPattern = ''@x'', replacement = ''/proj/a/${configDir}/src''\<rparr>]
   \<and> includesStr ''/proj/a/${configDir}/src'' configDirToken
   \<and> resolveAliases_first ''/proj'' ''/proj''
     [\<lparr>baseUrl = None, paths = [(''@x/*'', [''${conf${configDir}igDir}/*''])]\<rparr>]
     = Inr [\<lparr>findPattern = ''@x'', replacement = ''/proj/${configDir}''\<rparr>]
   \<and> includesStr ''/proj/${configDir}'' configDirToken"
  by code_simp

theorem placeholder_substituted_witness:
  "resolveAliases_probe ''/proj'' (map_of [(''/proj/lib'', Directory)]) ''/proj''
     [\<lparr>baseUrl = Some ''${configDir}/lib'', paths = [(''@shared/*'', [''./*''])]\<rparr>]
     = [\<lparr>findPattern = ''@shared'', replacement = ''/proj/lib''\<rparr>]
   \<and> resolveAliases_first ''/proj'' ''/proj''
     [\<lparr>baseUrl = Some ''${configDir}/lib'', paths = [(''@shared/*'', [''./*''])]\<rparr>]
     = Inr [\<lparr>findPattern = ''@shared'', replacement = ''/proj/lib''\<rparr>]
   \<and> \<not> includesStr (replacement \<lparr>findPattern = ''@shared'', replacement = ''/proj/lib''\<rparr>)
         configDirToken"
proof -
  let ?aliases = "[\<lparr>baseUrl = Some ''${configDir}/lib'', paths = [(''@shared/*'', [''./*''])]\<rparr>]"
  let ?fs = "map_of [(''/proj/lib'', Directory)]"
  let ?rule = "\<lparr>findPattern = ''@shared'', replacement = ''/proj/lib''\<rparr>"
  have 1: "isAbsolute ''/proj''" by code_simp
  have 2: "CHR ''$'' \<notin> set ''/proj''" by simp
  have 3: "\<not> includesStr ''/proj'' configDirToken" by code_simp
  have 4: "\<forall>a\<in>set ?aliases. \<forall>e\<in>set (paths a). \<forall>m\<in>set (snd e).
           \<not> reformsPlaceholder (removeSuffixPatternFromTsAlias m)"
    by code_simp
  have 5: "\<forall>a\<in>set ?aliases. \<forall>s. baseUrl a = Some s \<longrightarrow>
              startsWith s configDirToken \<or> \<not> includesStr s configDirToken"
    by (simp add: startsWith_def configDirToken_def)
  have p: "resolveAliases_probe ''/proj'' ?fs ''/proj'' ?aliases = [?rule]"
    by code_simp
  have f: "resolveAliases_first ''/proj'' ''/proj'' ?aliases = Inr [?rule]"
    by code_simp
  note T = placeholder_substituted [OF 1 2 3 4, of ?fs]
  have a: "\<forall>r\<in>set (resolveAliases_probe ''/proj'' ?fs ''/proj'' ?aliases).
         \<not> includesStr (replacement r) configDirToken"
    using T [THEN conjunct1] 5 by (rule mp)
  have m: "?rule \<in> set (resolveAliases_probe ''/proj'' ?fs ''/proj'' ?aliases)"
    unfolding p by simp
  have c: "\<not> includesStr (replacement ?rule) configDirToken"
    using a m by (rule bspec)
  show ?thesis
    by (intro conjI) (rule p f c)+
qed

end
